theory Spec2Isabelle
  imports Complex_Main "HOL-Library.Word" "HOL-Library.Log_Nat" "HOL-Library.Monad_Syntax"
begin

unbundle bit_operations_syntax

section \<open>Machine arithmetic of \<^verbatim>\<open>tqdm.h\<close>\<close>

text \<open>
  The header \<^verbatim>\<open>src/src/tqdm.h\<close> computes with \<^verbatim>\<open>unsigned int\<close> step counts,
  \<^verbatim>\<open>int\<close> glyph indices and \<^verbatim>\<open>double\<close> fractions and seconds.
  \<^item> \<^verbatim>\<open>unsigned int\<close> is a 32-bit word: \<open>+\<close> and \<open>-\<close> wrap modulo \<open>2 ^ 32\<close>.
  \<^item> \<^verbatim>\<open>int\<close> is a mathematical integer kept within \<open>[- 2 ^ 31, 2 ^ 31)\<close>: an operation
    that leaves the range is undefined behaviour and yields \<open>None\<close>.
  \<^item> \<^verbatim>\<open>double\<close> is an exact rational (or an infinity, or NaN) and every arithmetic
    operation rounds its exact result to the nearest value with a 53-bit significand, ties
    to even (binary64, round-to-nearest-even). The exponent range is not modelled: every
    magnitude this program computes from its counters and its clock lies far inside it.
    Signed zeros are not modelled either: no operand of this program is negative.
\<close>

type_synonym uint = "32 word"

subsection \<open>Rounding to binary64\<close>

definition ilog2 :: "rat \<Rightarrow> int" where
  "ilog2 x = (let (n, d) = quotient_of x;
                  k = bitlen n - bitlen d
              in if 2 powi k \<le> x then k else k - 1)"

definition round_half_even :: "rat \<Rightarrow> int" where
  "round_half_even m =
     (let f = \<lfloor>m\<rfloor>; d = m - of_int f
      in if d < 1 / 2 then f else if 1 / 2 < d then f + 1 else if even f then f else f + 1)"

definition fl :: "rat \<Rightarrow> rat" where
  "fl x = (if x = 0 then 0
           else let e = ilog2 \<bar>x\<bar> - 52
                in sgn x * of_int (round_half_even (\<bar>x\<bar> / 2 powi e)) * 2 powi e)"

subsection \<open>The type \<^verbatim>\<open>double\<close> and the operations the header uses\<close>

datatype double = Finite rat | PInf | NInf | NaN

definition inf_of_sign :: "rat \<Rightarrow> double" where
  "inf_of_sign s = (if 0 < s then PInf else if s < 0 then NInf else NaN)"

fun d_sgn :: "double \<Rightarrow> rat" where
  "d_sgn (Finite a) = sgn a"
| "d_sgn PInf = 1"
| "d_sgn NInf = - 1"
| "d_sgn NaN = 0"

text \<open>Conversions \<^verbatim>\<open>static_cast<double>(unsigned)\<close> and of an \<^verbatim>\<open>int\<close> literal.\<close>

definition double_of_uint :: "uint \<Rightarrow> double" where
  "double_of_uint n = Finite (fl (of_nat (unat n)))"

definition double_of_int :: "int \<Rightarrow> double" where
  "double_of_int i = Finite (fl (of_int i))"

fun d_mul :: "double \<Rightarrow> double \<Rightarrow> double" where
  "d_mul (Finite a) (Finite b) = Finite (fl (a * b))"
| "d_mul NaN y = NaN"
| "d_mul x NaN = NaN"
| "d_mul x y = inf_of_sign (d_sgn x * d_sgn y)"

fun d_div :: "double \<Rightarrow> double \<Rightarrow> double" where
  "d_div (Finite a) (Finite b) = (if b = 0 then inf_of_sign (sgn a) else Finite (fl (a / b)))"
| "d_div NaN y = NaN"
| "d_div x NaN = NaN"
| "d_div (Finite a) y = Finite 0"
| "d_div x (Finite b) = inf_of_sign (d_sgn x * (if b < 0 then - 1 else 1))"
| "d_div x y = NaN"

fun d_sub :: "double \<Rightarrow> double \<Rightarrow> double" where
  "d_sub (Finite a) (Finite b) = Finite (fl (a - b))"
| "d_sub NaN y = NaN"
| "d_sub x NaN = NaN"
| "d_sub PInf PInf = NaN"
| "d_sub NInf NInf = NaN"
| "d_sub PInf y = PInf"
| "d_sub NInf y = NInf"
| "d_sub (Finite a) PInf = NInf"
| "d_sub (Finite a) NInf = PInf"

text \<open>The comparison \<^verbatim>\<open>x > y\<close>: false whenever an operand is NaN.\<close>

fun d_gt :: "double \<Rightarrow> double \<Rightarrow> bool" where
  "d_gt (Finite a) (Finite b) = (b < a)"
| "d_gt NaN y = False"
| "d_gt x NaN = False"
| "d_gt PInf PInf = False"
| "d_gt PInf y = True"
| "d_gt NInf y = False"
| "d_gt (Finite a) PInf = False"
| "d_gt (Finite a) NInf = True"

text \<open>\<^verbatim>\<open>std::round\<close> rounds halfway cases away from zero; \<^verbatim>\<open>std::floor\<close> rounds down.
  Both return an integral value, which needs no further rounding.\<close>

definition c_round :: "rat \<Rightarrow> int" where
  "c_round a = (if 0 \<le> a then \<lfloor>a + 1 / 2\<rfloor> else - \<lfloor>- a + 1 / 2\<rfloor>)"

fun d_round :: "double \<Rightarrow> double" where
  "d_round (Finite a) = Finite (of_int (c_round a))"
| "d_round x = x"

fun d_floor :: "double \<Rightarrow> double" where
  "d_floor (Finite a) = Finite (of_int \<lfloor>a\<rfloor>)"
| "d_floor x = x"

text \<open>\<^verbatim>\<open>static_cast<int>(double)\<close> truncates towards zero; the behaviour is undefined when
  the truncated value is not an \<^verbatim>\<open>int\<close> (and for an infinity or NaN).\<close>

definition int_in_range :: "int \<Rightarrow> bool" where
  "int_in_range i = (- (2 ^ 31) \<le> i \<and> i < 2 ^ 31)"

definition c_trunc :: "rat \<Rightarrow> int" where
  "c_trunc a = (if 0 \<le> a then \<lfloor>a\<rfloor> else - \<lfloor>- a\<rfloor>)"

fun static_cast_int :: "double \<Rightarrow> int option" where
  "static_cast_int (Finite a) = (if int_in_range (c_trunc a) then Some (c_trunc a) else None)"
| "static_cast_int x = None"

definition int_sub :: "int \<Rightarrow> int \<Rightarrow> int option" where
  "int_sub a b = (if int_in_range (a - b) then Some (a - b) else None)"

section \<open>The environment: the steady clock and the output streams\<close>

text \<open>
  A time point of \<^verbatim>\<open>std::chrono::steady_clock\<close> is its tick count, a tick being a
  nanosecond. The world holds the readings the clock will give (\<open>clock w n\<close> is the
  reading of the \<open>n\<close>-th call of \<^verbatim>\<open>now()\<close>) and how many were taken.

  An output stream is addressed by a number (the renderer keeps a pointer to it). It has its
  formatting state (the flags \<^verbatim>\<open>flags()\<close>, the field width \<^verbatim>\<open>width()\<close>, the fill
  character \<^verbatim>\<open>fill()\<close> and the precision \<^verbatim>\<open>precision()\<close>), the items inserted and not yet
  flushed, and the chunks flushed to the device, one per flush. The streams are in good
  state: stream faults are outside the specification (its section 7) and are not modelled.
\<close>

type_synonym time_point_t = int

datatype block = U2588 | U2589 | U258A | U258B | U258C | U258D | U258E | U258F

text \<open>What an insertion appends to a stream: a character, a block glyph, or a \<^verbatim>\<open>double\<close>
  printed in \<^verbatim>\<open>std::fixed\<close> notation in a field of the given width with the given
  precision.\<close>

datatype out_item = Chr char | Blk block | Fixed nat nat double

record ostream =
  os_flags :: nat
  os_width :: nat
  os_fill :: char
  os_precision :: nat
  os_buffer :: "out_item list"
  os_device :: "out_item list list"

record world =
  clock :: "nat \<Rightarrow> time_point_t"
  reads :: nat
  streams :: "nat \<Rightarrow> ostream"

definition cerr :: nat where
  "cerr = 2"

definition steady_clock_now :: "world \<Rightarrow> time_point_t \<times> world" where
  "steady_clock_now w = (clock w (reads w), w\<lparr>reads := Suc (reads w)\<rparr>)"

text \<open>The number of characters of a string: a character is one, a block glyph is three
  (its UTF-8 encoding), and a \<^verbatim>\<open>double\<close> in fixed notation has its sign, the decimal digits
  of its integral part, and the point and the digits after it, the value rounded to that
  many digits; it fills its field. An infinity is written \<^verbatim>\<open>inf\<close> with its sign.
  Every NaN of the renderer is the result of an invalid operation (\<open>0 / 0\<close>); on x86-64 that
  NaN has its sign bit set, and the C library writes it \<^verbatim>\<open>-nan\<close>.\<close>

function dec_len :: "int \<Rightarrow> nat" where
  "dec_len n = (if n < 10 then 1 else Suc (dec_len (n div 10)))"
  by pat_completeness auto
termination
  by (relation "measure nat") auto

definition fixed_length :: "nat \<Rightarrow> double \<Rightarrow> nat" where
  "fixed_length p d =
     (case d of
        Finite q \<Rightarrow> (if q < 0 then 1 else 0)
                    + dec_len (round_half_even (\<bar>q\<bar> * 10 ^ p) div 10 ^ p)
                    + (if p = 0 then 0 else Suc p)
      | PInf \<Rightarrow> 3
      | NInf \<Rightarrow> 4
      | NaN \<Rightarrow> 4)"

fun item_size :: "out_item \<Rightarrow> nat" where
  "item_size (Chr c) = 1"
| "item_size (Blk b) = 3"
| "item_size (Fixed wd p d) = max wd (fixed_length p d)"

definition str_size :: "out_item list \<Rightarrow> nat" where
  "str_size xs = sum_list (map item_size xs)"

text \<open>\<^verbatim>\<open>operator<<\<close> for a string is a formatted insertion: when the width of the stream
  exceeds the size of the string, the string is padded to the width with the fill
  character, after the string when the adjustment flag is \<^verbatim>\<open>left\<close>, before it otherwise
  (the bits of \<^verbatim>\<open>adjustfield\<close> are 176 and \<^verbatim>\<open>left\<close> is 32, as in libstdc++); then the
  width is set to 0.\<close>

definition adjust_left :: "nat \<Rightarrow> bool" where
  "adjust_left f = (f AND 176 = 32)"

definition padded :: "ostream \<Rightarrow> out_item list \<Rightarrow> out_item list" where
  "padded s xs =
     (let pad = replicate (os_width s - str_size xs) (Chr (os_fill s))
      in if adjust_left (os_flags s) then xs @ pad else pad @ xs)"

definition os_insert :: "nat \<Rightarrow> out_item list \<Rightarrow> world \<Rightarrow> world" where
  "os_insert a xs w =
     w\<lparr>streams := (streams w)(a := (streams w a)
        \<lparr>os_buffer := os_buffer (streams w a) @ padded (streams w a) xs, os_width := 0\<rparr>)\<rparr>"

text \<open>\<^verbatim>\<open>os << std::setw(n)\<close>, by any writer of the stream.\<close>

definition setw :: "nat \<Rightarrow> nat \<Rightarrow> world \<Rightarrow> world" where
  "setw a n w = w\<lparr>streams := (streams w)(a := (streams w a)\<lparr>os_width := n\<rparr>)\<rparr>"

definition os_flush :: "nat \<Rightarrow> world \<Rightarrow> world" where
  "os_flush a w =
     w\<lparr>streams := (streams w)(a := (streams w a)
        \<lparr>os_device := os_device (streams w a) @ [os_buffer (streams w a)], os_buffer := []\<rparr>)\<rparr>"

definition os_set_flags :: "nat \<Rightarrow> nat \<Rightarrow> world \<Rightarrow> world" where
  "os_set_flags a f w = w\<lparr>streams := (streams w)(a := (streams w a)\<lparr>os_flags := f\<rparr>)\<rparr>"

section \<open>\<^verbatim>\<open>Chronometer\<close>\<close>

text \<open>\<^verbatim>\<open>duration_cast\<close> to seconds in \<^verbatim>\<open>double\<close> converts the tick count of the difference
  and divides it by the \<open>10 ^ 9\<close> ticks of a second.\<close>

definition elapsed_seconds :: "time_point_t \<Rightarrow> time_point_t \<Rightarrow> double" where
  "elapsed_seconds from to = d_div (double_of_int (to - from)) (double_of_int 1000000000)"

record Chronometer =
  start :: time_point_t

definition Chronometer_new :: "world \<Rightarrow> Chronometer \<times> world" where
  "Chronometer_new w = (let (now, w') = steady_clock_now w in (\<lparr>start = now\<rparr>, w'))"

definition reset :: "Chronometer \<Rightarrow> world \<Rightarrow> (double \<times> Chronometer) \<times> world" where
  "reset c w =
     (let previous = start c;
          (now, w') = steady_clock_now w;
          c' = c\<lparr>start := now\<rparr>
      in ((elapsed_seconds previous (start c'), c'), w'))"

definition peek :: "Chronometer \<Rightarrow> world \<Rightarrow> double \<times> world" where
  "peek c w = (let (now, w') = steady_clock_now w in (elapsed_seconds (start c) now, w'))"

definition get_start :: "Chronometer \<Rightarrow> time_point_t" where
  "get_start c = start c"

section \<open>\<^verbatim>\<open>ProgressBar\<close>\<close>

text \<open>The members keep their names without the trailing underscore (\<open>current_step\<close> for
  \<^verbatim>\<open>current_step_\<close>); \<open>os\<close> is the address of the stream \<^verbatim>\<open>os_\<close> points to. An
  operation takes the renderer and the world and returns them updated; one that repaints
  returns \<open>None\<close> where the repaint has undefined behaviour.\<close>

record ProgressBar =
  chronometer :: Chronometer
  refresh :: Chronometer
  min_time_per_update :: double
  os :: nat
  prefix :: string
  bar_size :: uint
  current_step :: uint
  total_steps :: uint

text \<open>The constructor: the two chronometers are started first, in the order of their
  declaration.\<close>

definition ProgressBar_new :: "uint \<Rightarrow> world \<Rightarrow> ProgressBar \<times> world" where
  "ProgressBar_new steps w =
     (let (c, w1) = Chronometer_new w;
          (r, w2) = Chronometer_new w1
      in (\<lparr>chronometer = c, refresh = r, min_time_per_update = Finite (fl (1 / 10)),
           os = cerr, prefix = [], bar_size = 40, current_step = 0,
           total_steps = steps\<rparr>, w2))"

definition restart :: "ProgressBar \<Rightarrow> world \<Rightarrow> ProgressBar \<times> world" where
  "restart pb w =
     (let ((_, c), w1) = reset (chronometer pb) w;
          ((_, r), w2) = reset (refresh pb) w1
      in (pb\<lparr>chronometer := c, refresh := r\<rparr>, w2))"

definition get_fill_value :: "int \<Rightarrow> block" where
  "get_fill_value idx =
     (if idx = 0 then U258F
      else if idx = 1 then U258E
      else if idx = 2 then U258D
      else if idx = 3 then U258C
      else if idx = 4 then U258B
      else if idx = 5 then U258A
      else if idx = 6 then U2589
      else U2588)"

text \<open>The index of the gradation glyph: the local variable \<^verbatim>\<open>last_fill_idx\<close> of
  \<^verbatim>\<open>print_bar\<close> (lines 149 to 151).\<close>

definition last_fill_idx :: "double \<Rightarrow> int option" where
  "last_fill_idx fill_percentage =
     do {
       a \<leftarrow> static_cast_int (d_mul fill_percentage (double_of_int 100));
       b \<leftarrow> static_cast_int
              (d_mul (d_floor (d_mul fill_percentage (double_of_int 10))) (double_of_int 10));
       d \<leftarrow> int_sub a b;
       Some (min d 6)
     }"

text \<open>\<^verbatim>\<open>print_bar\<close> appends the bar to the string stream \<open>ss\<close>. The \<^verbatim>\<open>for\<close> loop
  inserts one full block for each \<open>i\<close> below \<open>num_filled\<close>.\<close>

definition print_bar :: "ProgressBar \<Rightarrow> out_item list \<Rightarrow> double \<Rightarrow> out_item list option" where
  "print_bar pb ss fill_percentage =
     do {
       nf \<leftarrow> static_cast_int (d_round (d_mul fill_percentage (double_of_uint (bar_size pb))));
       let num_filled = (word_of_int nf :: uint);
       let ss1 = ss @ [Chr CHR ''|''];
       let ss2 = ss1 @ replicate (unat num_filled) (Blk U2588);
       idx \<leftarrow> last_fill_idx fill_percentage;
       let ss3 = ss2 @ [Blk (get_fill_value idx)];
       let num_filled = num_filled + 1;
       let ss4 = (if num_filled < bar_size pb
                  then ss3 @ replicate (unat (bar_size pb - num_filled)) (Chr CHR '' '')
                  else ss3);
       Some (ss4 @ [Chr CHR ''|''])
     }"

definition time_since_refresh :: "ProgressBar \<Rightarrow> world \<Rightarrow> double \<times> world" where
  "time_since_refresh pb w = peek (refresh pb) w"

definition reset_refresh_timer :: "ProgressBar \<Rightarrow> world \<Rightarrow> ProgressBar \<times> world" where
  "reset_refresh_timer pb w =
     (let ((_, r), w') = reset (refresh pb) w in (pb\<lparr>refresh := r\<rparr>, w'))"

text \<open>\<^verbatim>\<open>progress\<close> is the local variable of that name of \<^verbatim>\<open>update_display\<close>.
  \<^verbatim>\<open>update_display\<close> builds the line in a local string stream: the manipulators
  \<^verbatim>\<open>std::fixed\<close> and \<^verbatim>\<open>std::setprecision(1)\<close> act on that stream and stay in force for
  the two times, \<^verbatim>\<open>std::setw(5)\<close> for the percentage only. The finished string is
  inserted into the output stream, which is flushed, and the flags read at the start are
  written back.\<close>

definition progress :: "ProgressBar \<Rightarrow> double" where
  "progress pb = d_div (double_of_uint (current_step pb)) (double_of_uint (total_steps pb))"

definition update_display :: "ProgressBar \<Rightarrow> world \<Rightarrow> world option" where
  "update_display pb w =
     (let flags = os_flags (streams w (os pb));
          (t, w1) = peek (chronometer pb) w;
          eta = d_sub (d_div t (progress pb)) t;
          bar = [Chr (CHR 0x0D)] @ map Chr (prefix pb) @
                [Chr CHR '' '', Fixed 5 1 (d_mul (progress pb) (double_of_int 100)), Chr CHR ''%'']
      in do {
           bar1 \<leftarrow> print_bar pb bar (progress pb);
           let bar2 = bar1 @ [Chr CHR '' '', Chr CHR ''['', Fixed 0 1 t, Chr CHR ''s'',
                              Chr CHR ''<'', Fixed 0 1 eta, Chr CHR ''s'', Chr CHR '']''];
           let w2 = os_flush (os pb) (os_insert (os pb) bar2 w1);
           Some (os_set_flags (os pb) flags w2)
         })"

definition update :: "uint \<Rightarrow> bool \<Rightarrow> ProgressBar \<Rightarrow> world \<Rightarrow> (ProgressBar \<times> world) option" where
  "update elapsed_steps force pb w =
     (let pb1 = (if current_step pb + elapsed_steps > total_steps pb
                 then pb\<lparr>current_step := total_steps pb\<rparr>
                 else pb\<lparr>current_step := current_step pb + elapsed_steps\<rparr>);
          (since, w1) = time_since_refresh pb1 w
      in if d_gt since (min_time_per_update pb1) \<or> force
         then let (pb2, w2) = reset_refresh_timer pb1 w1
              in map_option (Pair pb2) (update_display pb2 w2)
         else Some (pb1, w1))"

definition update_default :: "ProgressBar \<Rightarrow> world \<Rightarrow> (ProgressBar \<times> world) option" where
  "update_default pb w = update 1 False pb w"

definition fill :: "ProgressBar \<Rightarrow> world \<Rightarrow> (ProgressBar \<times> world) option" where
  "fill pb w = update (total_steps pb - current_step pb) True pb w"

definition set_ostream :: "nat \<Rightarrow> ProgressBar \<Rightarrow> ProgressBar" where
  "set_ostream a pb = pb\<lparr>os := a\<rparr>"

definition set_prefix :: "string \<Rightarrow> ProgressBar \<Rightarrow> ProgressBar" where
  "set_prefix s pb = pb\<lparr>prefix := s\<rparr>"

definition set_bar_size :: "uint \<Rightarrow> ProgressBar \<Rightarrow> ProgressBar" where
  "set_bar_size sz pb = pb\<lparr>bar_size := sz\<rparr>"

definition set_min_update_time :: "double \<Rightarrow> ProgressBar \<Rightarrow> ProgressBar" where
  "set_min_update_time t pb = pb\<lparr>min_time_per_update := t\<rparr>"

definition elapsed_time :: "ProgressBar \<Rightarrow> world \<Rightarrow> double \<times> world" where
  "elapsed_time pb w = peek (chronometer pb) w"

text \<open>The states in which a repaint has defined behaviour: the total is not zero (the
  progress is a number), the step count is within the total, and the bar size is an
  \<^verbatim>\<open>int\<close> (so that \<^verbatim>\<open>static_cast<int>\<close> of the number of filled cells is defined).\<close>

definition valid :: "ProgressBar \<Rightarrow> bool" where
  "valid pb = (total_steps pb \<noteq> 0 \<and> current_step pb \<le> total_steps pb \<and> bar_size pb \<le> 2147483647)"

section \<open>The vocabulary of the specification\<close>

text \<open>The bar as the specification's output format writes it: the opening delimiter, \<open>n\<close>
  full blocks, one gradation glyph, \<open>pad\<close> spaces, the closing delimiter.\<close>

definition bar_cells :: "nat \<Rightarrow> block \<Rightarrow> nat \<Rightarrow> out_item list" where
  "bar_cells n g pad =
     [Chr CHR ''|''] @ replicate n (Blk U2588) @ [Blk g] @ replicate pad (Chr CHR '' '') @ [Chr CHR ''|'']"

text \<open>The line of one repaint, as the specification's output format writes it
  (\<^verbatim>\<open>\r<prefix> <pct>% |<fill><gradation><padding>| [<elapsed>s<<eta>s]\<close>), for the elapsed
  time \<open>t\<close>, \<open>n\<close> full blocks and the gradation glyph \<open>g\<close>; and what writing a line and
  flushing does to a stream: the line, padded to the width of the stream, goes to the device
  with what was buffered, and the width is 0.\<close>

definition repaint_line :: "ProgressBar \<Rightarrow> double \<Rightarrow> nat \<Rightarrow> block \<Rightarrow> out_item list" where
  "repaint_line pb t n g =
     [Chr (CHR 0x0D)] @ map Chr (prefix pb) @
     [Chr CHR '' '', Fixed 5 1 (d_mul (progress pb) (double_of_int 100)), Chr CHR ''%''] @
     bar_cells n g (unat (bar_size pb) - Suc n) @
     [Chr CHR '' '', Chr CHR ''['', Fixed 0 1 t, Chr CHR ''s'', Chr CHR ''<'',
      Fixed 0 1 (d_sub (d_div t (progress pb)) t), Chr CHR ''s'', Chr CHR '']'']"

definition flushed_line :: "out_item list \<Rightarrow> ostream \<Rightarrow> ostream" where
  "flushed_line l s =
     s\<lparr>os_width := 0, os_device := os_device s @ [os_buffer s @ padded s l], os_buffer := []\<rparr>"

text \<open>A renderer and a world for the examples: the renderer of the specification's example
  (\<open>total_steps = 4\<close>, \<open>bar_width = 10\<close>) after \<open>cur\<close> steps, its chronometers started at
  tick 0; a world whose clock reads \<open>tick n\<close> at the \<open>n\<close>-th reading and whose streams are
  empty.\<close>

definition example_bar :: "uint \<Rightarrow> ProgressBar" where
  "example_bar cur =
     \<lparr>chronometer = \<lparr>start = 0\<rparr>, refresh = \<lparr>start = 0\<rparr>,
      min_time_per_update = Finite (fl (1 / 10)), os = cerr, prefix = [], bar_size = 10,
      current_step = cur, total_steps = 4\<rparr>"

definition example_world :: "(nat \<Rightarrow> time_point_t) \<Rightarrow> world" where
  "example_world tick =
     \<lparr>clock = tick, reads = 0,
      streams = (\<lambda>a. \<lparr>os_flags = 0, os_width = 0, os_fill = CHR '' '', os_precision = 6,
                       os_buffer = [], os_device = []\<rparr>)\<rparr>"

text \<open>The gradation index in the specification's words: take \<open>progress * 100\<close>, subtract the
  largest multiple of 10 not exceeding it, clamp to a maximum of 6.\<close>

definition spec_gradation_index :: "rat \<Rightarrow> int" where
  "spec_gradation_index x = min (c_trunc x - 10 * \<lfloor>x / 10\<rfloor>) 6"

text \<open>A sequence of calls \<^verbatim>\<open>update(k)\<close>, one for each step count of the list.\<close>

fun updates :: "uint list \<Rightarrow> ProgressBar \<Rightarrow> world \<Rightarrow> (ProgressBar \<times> world) option" where
  "updates [] pb w = Some (pb, w)"
| "updates (k # ks) pb w = update k False pb w \<bind> (\<lambda>(pb', w'). updates ks pb' w')"

section \<open>Rounding: the error bound and the exact cases\<close>

declare dec_len.simps [simp del]


lemma round_half_even_of_int: "round_half_even (of_int n) = n"
  by (simp add: round_half_even_def)

lemma bitlen_pos_bounds:
  assumes "0 < (n::int)"
  shows "(2::rat) powi (bitlen n - 1) \<le> of_int n" and "of_int n < (2::rat) powi (bitlen n)"
proof -
  from bitlen_bounds [OF assms] have a: "2 ^ nat (bitlen n - 1) \<le> n" and b: "n < 2 ^ nat (bitlen n)"
    by auto
  have ge1: "1 \<le> bitlen n" using assms by (auto simp: bitlen_alt_def)
  have "(of_int (2 ^ nat (bitlen n - 1)) :: rat) \<le> of_int n" using a by (simp only: of_int_le_iff)
  then show "(2::rat) powi (bitlen n - 1) \<le> of_int n"
    using ge1 by (simp add: power_int_def)
  have "(of_int n :: rat) < of_int (2 ^ nat (bitlen n))" using b by (simp only: of_int_less_iff)
  then show "of_int n < (2::rat) powi (bitlen n)"
    using ge1 by (simp add: power_int_def)
qed

lemma ilog2_bounds:
  assumes "0 < x"
  shows "2 powi (ilog2 x) \<le> x" and "x < 2 powi (ilog2 x + 1)"
proof -
  obtain n d where q: "quotient_of x = (n, d)" by (cases "quotient_of x")
  have d: "0 < d" using q quotient_of_denom_pos by blast
  have x: "x = of_int n / of_int d" using q quotient_of_div by blast
  have n: "0 < n" using assms d x by (simp add: zero_less_divide_iff)
  define k where "k = bitlen n - bitlen d"
  have il: "ilog2 x = (if 2 powi k \<le> x then k else k - 1)"
    by (simp add: ilog2_def q k_def Let_def)
  have dpos: "(0::rat) < of_int d" using d by simp
  have "x < 2 powi (bitlen n) / of_int d"
    unfolding x using bitlen_pos_bounds(2) [OF n] dpos by (simp add: divide_strict_right_mono)
  also have "\<dots> \<le> 2 powi (bitlen n) / 2 powi (bitlen d - 1)"
    using bitlen_pos_bounds(1) [OF d] dpos by (intro divide_left_mono) (auto simp: zero_less_power_int zero_less_mult_iff)
  also have "\<dots> = 2 powi (bitlen n - (bitlen d - 1))"
    by (rule power_int_diff [symmetric]) simp
  also have "\<dots> = 2 powi (k + 1)"
    by (simp add: k_def algebra_simps)
  finally have up: "x < 2 powi (k + 1)" .
  have "(2::rat) powi (k - 1) = 2 powi ((bitlen n - 1) - bitlen d)"
    by (simp add: k_def algebra_simps)
  also have "\<dots> = 2 powi (bitlen n - 1) / 2 powi (bitlen d)"
    by (rule power_int_diff) simp
  also have "\<dots> \<le> of_int n / 2 powi (bitlen d)"
    using bitlen_pos_bounds(1) [OF n] by (intro divide_right_mono) auto
  also have "\<dots> \<le> of_int n / of_int d"
    using bitlen_pos_bounds(2) [OF d] n dpos by (intro divide_left_mono) (auto simp: zero_less_power_int)
  finally have lo: "2 powi (k - 1) \<le> x" unfolding x .
  show "2 powi (ilog2 x) \<le> x" using lo by (simp add: il)
  show "x < 2 powi (ilog2 x + 1)" using up by (auto simp add: il not_le)
qed


lemma round_half_even_err: "\<bar>of_int (round_half_even m) - m\<bar> \<le> 1 / 2"
proof -
  have "of_int \<lfloor>m\<rfloor> \<le> m" "m < of_int \<lfloor>m\<rfloor> + 1" by linarith+
  then show ?thesis
    by (auto simp: round_half_even_def Let_def abs_le_iff)
qed

lemma fl_pos:
  assumes "0 < x"
  shows "fl x = of_int (round_half_even (x / 2 powi (ilog2 x - 52))) * 2 powi (ilog2 x - 52)"
  using assms by (simp add: fl_def Let_def)

lemma fl_minus: "fl (- x) = - fl x"
  by (simp add: fl_def Let_def sgn_minus)

lemma fl_error_pos:
  assumes "0 < x"
  shows "\<bar>fl x - x\<bar> \<le> x / 2 ^ 53"
proof -
  define p :: rat where "p = 2 powi (ilog2 x - 52)"
  define m where "m = x / p"
  have p: "0 < p" by (simp add: p_def zero_less_power_int)
  have xm: "x = m * p" using p by (simp add: m_def)
  have "fl x = of_int (round_half_even m) * p"
    using fl_pos [OF assms] by (simp add: p_def m_def)
  then have "fl x - x = (of_int (round_half_even m) - m) * p"
    by (simp add: xm algebra_simps)
  then have "\<bar>fl x - x\<bar> = \<bar>of_int (round_half_even m) - m\<bar> * p"
    using p by (simp add: abs_mult)
  also have "\<dots> \<le> 1 / 2 * p"
    using round_half_even_err [of m] p by (intro mult_right_mono) auto
  also have "p = 2 powi (ilog2 x) / 2 powi 52"
    unfolding p_def by (rule power_int_diff) simp
  also have "1 / 2 * (2 powi (ilog2 x) / 2 powi 52) \<le> 1 / 2 * (x / 2 powi 52)"
    using ilog2_bounds(1) [OF assms] by (intro mult_left_mono divide_right_mono) auto
  also have "\<dots> = x / 2 ^ 53" by simp
  finally show ?thesis .
qed

lemma fl_error: "\<bar>fl x - x\<bar> \<le> \<bar>x\<bar> / 2 ^ 53"
proof (cases "0 < x")
  case True
  then show ?thesis using fl_error_pos [of x] by simp
next
  case False
  show ?thesis
  proof (cases "x = 0")
    case True
    then show ?thesis by (simp add: fl_def)
  next
    case False
    with \<open>\<not> 0 < x\<close> have "0 < - x" by simp
    from fl_error_pos [OF this] show ?thesis
      using \<open>0 < - x\<close> by (simp add: fl_minus abs_minus_commute)
  qed
qed

lemma fl_zero: "fl 0 = 0"
  by (simp add: fl_def)

lemma ilog2_less:
  assumes "0 < x" "x < 2 powi k"
  shows "ilog2 x < k"
proof (rule ccontr)
  assume "\<not> ilog2 x < k"
  then have "k \<le> ilog2 x" by simp
  then have "(2::rat) powi k \<le> 2 powi (ilog2 x)" by (intro power_int_increasing) auto
  with ilog2_bounds(1) [OF assms(1)] assms(2) show False by simp
qed

lemma fl_of_int_pos:
  assumes "0 < n" "n < 2 ^ 53"
  shows "fl (of_int n) = of_int n"
proof -
  let ?x = "of_int n :: rat"
  have x: "0 < ?x" using assms by simp
  have "?x < of_int (2 ^ 53)" using assms(2) by (simp only: of_int_less_iff)
  then have "?x < 2 powi 53" by simp
  from ilog2_less [OF x this] have e: "ilog2 ?x - 52 \<le> 0" by simp
  define j where "j = nat (- (ilog2 ?x - 52))"
  have pj: "(2::rat) powi (ilog2 ?x - 52) = 1 / 2 ^ j"
  proof (cases "ilog2 ?x - 52 = 0")
    case True
    then show ?thesis by (simp add: j_def)
  next
    case False
    with e have "ilog2 ?x - 52 < 0" by simp
    then show ?thesis by (simp add: j_def power_int_def power_one_over inverse_eq_divide)
  qed
  have "?x / 2 powi (ilog2 ?x - 52) = of_int (n * 2 ^ j)"
    by (simp add: pj)
  then have "round_half_even (?x / 2 powi (ilog2 ?x - 52)) = n * 2 ^ j"
    by (simp only: round_half_even_of_int)
  then show ?thesis
    by (simp add: fl_pos [OF x] pj)
qed

lemma fl_of_int:
  assumes "\<bar>n\<bar> < 2 ^ 53"
  shows "fl (of_int n) = of_int n"
proof -
  consider "0 < n" | "n = 0" | "0 < - n" by linarith
  then show ?thesis
  proof cases
    case 1
    then show ?thesis using assms by (intro fl_of_int_pos) auto
  next
    case 2
    then show ?thesis by (simp add: fl_zero)
  next
    case 3
    then have "fl (of_int (- n)) = of_int (- n)" using assms by (intro fl_of_int_pos) auto
    then show ?thesis by (simp add: fl_minus)
  qed
qed


lemma fl_nonneg:
  assumes "0 \<le> x"
  shows "0 \<le> fl x"
proof -
  have "x / 2 ^ 53 \<le> x" using assms by (simp add: field_simps)
  moreover have "\<bar>fl x - x\<bar> \<le> x / 2 ^ 53" using fl_error [of x] assms by simp
  ultimately show ?thesis by linarith
qed

lemma fl_scale_error:
  assumes "0 \<le> q" "q \<le> 1" "0 \<le> s"
  shows "\<bar>fl (fl q * s) - q * s\<bar> \<le> s / 2 ^ 51"
proof -
  define p where "p = fl q"
  have e1: "\<bar>p - q\<bar> \<le> 1 / 2 ^ 53"
  proof -
    have "\<bar>p - q\<bar> \<le> \<bar>q\<bar> / 2 ^ 53" unfolding p_def by (rule fl_error)
    also have "\<dots> \<le> 1 / 2 ^ 53" using assms by (intro divide_right_mono) auto
    finally show ?thesis .
  qed
  have p0: "0 \<le> p" unfolding p_def using assms(1) by (rule fl_nonneg)
  have "(1::rat) / 2 ^ 53 \<le> 1" by simp
  with e1 assms(2) have p2: "p \<le> 2" by linarith
  have "\<bar>fl (p * s) - p * s\<bar> \<le> \<bar>p * s\<bar> / 2 ^ 53" by (rule fl_error)
  also have "\<bar>p * s\<bar> = p * s" using p0 assms(3) by simp
  also have "p * s / 2 ^ 53 \<le> 2 * s / 2 ^ 53"
    using p2 assms(3) by (intro divide_right_mono mult_right_mono) auto
  finally have e2: "\<bar>fl (p * s) - p * s\<bar> \<le> 2 * s / 2 ^ 53" .
  have "\<bar>p * s - q * s\<bar> = \<bar>p - q\<bar> * s"
    using assms(3) by (simp add: abs_mult left_diff_distrib [symmetric])
  also have "\<dots> \<le> 1 / 2 ^ 53 * s" using e1 assms(3) by (intro mult_right_mono) auto
  finally have e3: "\<bar>p * s - q * s\<bar> \<le> s / 2 ^ 53" by simp
  have "\<bar>fl (p * s) - q * s\<bar> \<le> \<bar>fl (p * s) - p * s\<bar> + \<bar>p * s - q * s\<bar>" by simp
  also have "\<dots> \<le> 2 * s / 2 ^ 53 + s / 2 ^ 53" using e2 e3 by simp
  also have "\<dots> \<le> s / 2 ^ 51" using assms(3) by simp
  finally show ?thesis unfolding p_def .
qed

lemma double_of_uint_eq: "double_of_uint n = Finite (of_nat (unat n))"
proof -
  have "uint n < 2 ^ 32" using uint_lt2p [of n] by simp
  moreover have "0 \<le> uint n" by simp
  ultimately have "\<bar>uint n\<bar> < 2 ^ 53" by simp
  from fl_of_int [OF this] show ?thesis by (simp add: double_of_uint_def)
qed

lemma double_of_int_eq: "\<bar>i\<bar> < 2 ^ 53 \<Longrightarrow> double_of_int i = Finite (of_int i)"
  by (simp add: double_of_int_def fl_of_int)

lemma progress_eq:
  assumes "total_steps pb \<noteq> 0"
  shows "progress pb = Finite (fl (of_nat (unat (current_step pb)) / of_nat (unat (total_steps pb))))"
proof -
  have "(of_nat (unat (total_steps pb)) :: rat) \<noteq> 0" using assms by (simp add: unsigned_eq_0_iff)
  then show ?thesis by (simp add: progress_def double_of_uint_eq)
qed

section \<open>The two products of the gradation index\<close>

text \<open>At a progress of \<open>k / 10\<close> both products are exact; elsewhere the quotient of two
  32-bit counts is at least \<open>1 / 2 ^ 32\<close> away from every tenth, far more than the rounding
  errors.\<close>

lemma tenths_10: "fl (fl (of_int k / 10) * 10) = of_int k" if "k \<in> {0..10}" for k :: int
proof -
  have "k = 0 \<or> k = 1 \<or> k = 2 \<or> k = 3 \<or> k = 4 \<or> k = 5 \<or> k = 6 \<or> k = 7 \<or> k = 8 \<or> k = 9 \<or> k = 10"
  proof -
    from that have "0 \<le> k" "k \<le> 10" by auto
    then show ?thesis by presburger
  qed
  moreover have "fl (fl (0 / 10) * 10) = 0" by code_simp
  moreover have "fl (fl (1 / 10) * 10) = 1" by code_simp
  moreover have "fl (fl (2 / 10) * 10) = 2" by code_simp
  moreover have "fl (fl (3 / 10) * 10) = 3" by code_simp
  moreover have "fl (fl (4 / 10) * 10) = 4" by code_simp
  moreover have "fl (fl (5 / 10) * 10) = 5" by code_simp
  moreover have "fl (fl (6 / 10) * 10) = 6" by code_simp
  moreover have "fl (fl (7 / 10) * 10) = 7" by code_simp
  moreover have "fl (fl (8 / 10) * 10) = 8" by code_simp
  moreover have "fl (fl (9 / 10) * 10) = 9" by code_simp
  moreover have "fl (fl (10 / 10) * 10) = 10" by code_simp
  ultimately show ?thesis by (elim disjE) simp_all
qed

lemma tenths_100: "fl (fl (of_int k / 10) * 100) = of_int (10 * k)" if "k \<in> {0..10}" for k :: int
proof -
  have "k = 0 \<or> k = 1 \<or> k = 2 \<or> k = 3 \<or> k = 4 \<or> k = 5 \<or> k = 6 \<or> k = 7 \<or> k = 8 \<or> k = 9 \<or> k = 10"
  proof -
    from that have "0 \<le> k" "k \<le> 10" by auto
    then show ?thesis by presburger
  qed
  moreover have "fl (fl (0 / 10) * 100) = 0" by code_simp
  moreover have "fl (fl (1 / 10) * 100) = 10" by code_simp
  moreover have "fl (fl (2 / 10) * 100) = 20" by code_simp
  moreover have "fl (fl (3 / 10) * 100) = 30" by code_simp
  moreover have "fl (fl (4 / 10) * 100) = 40" by code_simp
  moreover have "fl (fl (5 / 10) * 100) = 50" by code_simp
  moreover have "fl (fl (6 / 10) * 100) = 60" by code_simp
  moreover have "fl (fl (7 / 10) * 100) = 70" by code_simp
  moreover have "fl (fl (8 / 10) * 100) = 80" by code_simp
  moreover have "fl (fl (9 / 10) * 100) = 90" by code_simp
  moreover have "fl (fl (10 / 10) * 100) = 100" by code_simp
  ultimately show ?thesis by (elim disjE) simp_all
qed

lemma frac_sep:
  fixes c t :: int
  assumes t: "0 < t" "t < 2 ^ 32" and r: "(10 * c) mod t \<noteq> 0"
  shows "of_int ((10 * c) div t) + 1 / 2 ^ 32 \<le> of_int c / of_int t * (10::rat)"
    and "of_int c / of_int t * (10::rat) \<le> of_int ((10 * c) div t) + 1 - 1 / 2 ^ 32"
proof -
  define k where "k = (10 * c) div t"
  define m where "m = (10 * c) mod t"
  have "0 \<le> m" "m < t" unfolding m_def using t by simp_all
  moreover have "m \<noteq> 0" using r by (simp add: m_def)
  ultimately have m: "1 \<le> m" "m \<le> t - 1" by linarith+
  have "10 * c = k * t + m" by (simp add: k_def m_def)
  then have "(of_int (10 * c) :: rat) = of_int (k * t + m)" by (simp only:)
  then have eq: "of_int c / of_int t * (10::rat) = of_int k + of_int m / of_int t"
    using t by (simp add: field_simps)
  have tpos: "(0::rat) < of_int t" using t by simp
  have t32: "(of_int t :: rat) \<le> 2 ^ 32"
  proof -
    have "(of_int t :: rat) \<le> of_int (2 ^ 32)" using t by (simp only: of_int_le_iff)
    then show ?thesis by simp
  qed
  have inv: "(1::rat) / 2 ^ 32 \<le> 1 / of_int t"
    using tpos t32 by (intro divide_left_mono) auto
  have "(1::rat) / of_int t \<le> of_int m / of_int t"
    using m(1) tpos by (intro divide_right_mono) auto
  with inv have lo: "(1::rat) / 2 ^ 32 \<le> of_int m / of_int t" by linarith
  have "(of_int m :: rat) / of_int t \<le> of_int (t - 1) / of_int t"
    using m(2) tpos by (intro divide_right_mono) (auto simp del: of_int_diff)
  also have "\<dots> = 1 - 1 / of_int t" using tpos by (simp add: field_simps)
  finally have hi: "(of_int m :: rat) / of_int t \<le> 1 - 1 / 2 ^ 32" using inv by linarith
  show "of_int ((10 * c) div t) + 1 / 2 ^ 32 \<le> of_int c / of_int t * (10::rat)"
    using lo unfolding eq k_def by simp
  show "of_int c / of_int t * (10::rat) \<le> of_int ((10 * c) div t) + 1 - 1 / 2 ^ 32"
    using hi unfolding eq k_def by simp
qed

lemma idx_main:
  fixes c t :: int
  assumes t: "0 < t" "t < 2 ^ 32" and c: "0 \<le> c" "c \<le> t"
  defines "p \<equiv> fl (of_int c / of_int t)"
  shows "\<lfloor>fl (p * 10)\<rfloor> = \<lfloor>fl (p * 100)\<rfloor> div 10"
proof -
  define q :: rat where "q = of_int c / of_int t"
  define k where "k = (10 * c) div t"
  have tpos: "(0::rat) < of_int t" using t by simp
  have q01: "0 \<le> q" "q \<le> 1" using c tpos by (simp_all add: q_def)
  have k: "0 \<le> k" "k \<le> 10"
  proof -
    show "0 \<le> k" unfolding k_def using c t by (simp add: pos_imp_zdiv_nonneg_iff)
    have "10 * c \<le> 10 * t" using c by simp
    then have "(10 * c) div t \<le> (10 * t) div t" by (rule zdiv_mono1) (use t in simp)
    then show "k \<le> 10" unfolding k_def using t by simp
  qed
  show ?thesis
  proof (cases "(10 * c) mod t = 0")
    case True
    then have "10 * c = k * t" unfolding k_def by auto
    then have "(of_int (10 * c) :: rat) = of_int (k * t)" by (simp only:)
    then have qk: "q = of_int k / 10" using tpos by (simp add: q_def field_simps)
    have pq: "p = fl q" by (simp add: p_def q_def)
    have p: "p = fl (of_int k / 10)" unfolding pq qk ..
    have kk: "k \<in> {0..10}" using k by simp
    have "\<lfloor>fl (p * 10)\<rfloor> = k"
      unfolding p tenths_10 [OF kk] by (rule floor_of_int)
    moreover have "\<lfloor>fl (p * 100)\<rfloor> = 10 * k"
      unfolding p tenths_100 [OF kk] by (rule floor_of_int)
    ultimately show ?thesis by simp
  next
    case False
    from frac_sep [OF t False]
    have lo: "of_int k + 1 / 2 ^ 32 \<le> q * 10" and hi: "q * 10 \<le> of_int k + 1 - 1 / 2 ^ 32"
      by (simp_all add: q_def k_def)
    have e10: "\<bar>fl (p * 10) - q * 10\<bar> \<le> 10 / 2 ^ 51"
      unfolding p_def q_def [symmetric] by (rule fl_scale_error) (use q01 in auto)
    have e100: "\<bar>fl (p * 100) - q * 100\<bar> \<le> 100 / 2 ^ 51"
      unfolding p_def q_def [symmetric] by (rule fl_scale_error) (use q01 in auto)
    have d10: "(10::rat) / 2 ^ 51 < 1 / 2 ^ 32" and d100: "(100::rat) / 2 ^ 51 < 10 * (1 / 2 ^ 32)"
      by simp_all
    have f10: "\<lfloor>fl (p * 10)\<rfloor> = k"
    proof (rule floor_unique)
      show "of_int k \<le> fl (p * 10)" using e10 lo d10 by linarith
      show "fl (p * 10) < of_int k + 1" using e10 hi d10 by linarith
    qed
    have q100: "q * 100 = 10 * (q * 10)" by simp
    have "10 * of_int k \<le> fl (p * 100)" using e100 lo d100 unfolding q100 by linarith
    then have a: "of_int (10 * k) \<le> fl (p * 100)" by simp
    have "fl (p * 100) < 10 * of_int k + 10" using e100 hi d100 unfolding q100 by linarith
    then have b: "fl (p * 100) < of_int (10 * k + 10)" by simp
    have "10 * k \<le> \<lfloor>fl (p * 100)\<rfloor>" using a by (simp only: le_floor_iff)
    moreover have "\<lfloor>fl (p * 100)\<rfloor> < 10 * k + 10" using b by (simp only: floor_less_iff)
    ultimately have "\<lfloor>fl (p * 100)\<rfloor> div 10 = k" by presburger
    with f10 show ?thesis by simp
  qed
qed

section \<open>The bar\<close>

lemma uint_ratio:
  fixes c t :: uint
  assumes "t \<noteq> 0" "c \<le> t"
  shows "0 < uint t" "uint t < 2 ^ 32" "0 \<le> uint c" "uint c \<le> uint t"
proof -
  have "uint t \<noteq> 0" using assms(1) by (simp add: uint_0_iff)
  moreover have "0 \<le> uint t" by simp
  ultimately show "0 < uint t" by linarith
  show "uint t < 2 ^ 32" using uint_lt2p [of t] by simp
  show "0 \<le> uint c" by simp
  show "uint c \<le> uint t" using assms(2) by (simp add: word_le_def)
qed

lemma progress_uint:
  assumes "total_steps pb \<noteq> 0"
  shows "progress pb = Finite (fl (of_int (uint (current_step pb)) / of_int (uint (total_steps pb))))"
  using progress_eq [OF assms] by simp

lemma c_trunc_nonneg: "0 \<le> a \<Longrightarrow> c_trunc a = \<lfloor>a\<rfloor>"
  by (simp add: c_trunc_def)

lemma static_cast_int_of_int: "int_in_range i \<Longrightarrow> static_cast_int (Finite (of_int i)) = Some i"
  by (simp add: c_trunc_def)

lemma scaled_bounds:
  assumes "0 \<le> q" "q \<le> 1" "0 \<le> s"
  shows "0 \<le> fl (fl q * s)" and "fl (fl q * s) \<le> s + s / 2 ^ 51"
proof -
  have "0 \<le> fl q * s" using assms fl_nonneg [of q] by simp
  then show "0 \<le> fl (fl q * s)" by (rule fl_nonneg)
  have "q * s \<le> s" using assms by (simp add: mult_left_le_one_le)
  with fl_scale_error [OF assms] show "fl (fl q * s) \<le> s + s / 2 ^ 51" by linarith
qed

lemma last_fill_idx_eq:
  assumes "total_steps pb \<noteq> 0" "current_step pb \<le> total_steps pb"
  defines "x \<equiv> fl (fl (of_int (uint (current_step pb)) / of_int (uint (total_steps pb))) * 100)"
  shows "d_mul (progress pb) (double_of_int 100) = Finite x"
    and "0 \<le> x" and "x < 101"
    and "last_fill_idx (progress pb) = Some (min (\<lfloor>x\<rfloor> - 10 * (\<lfloor>x\<rfloor> div 10)) 6)"
proof -
  define ci ti where "ci = uint (current_step pb)" and "ti = uint (total_steps pb)"
  note u = uint_ratio [OF assms(1,2), folded ci_def ti_def]
  define q :: rat where "q = of_int ci / of_int ti"
  define y where "y = fl (fl q * 10)"
  have q01: "0 \<le> q" "q \<le> 1" using u by (simp_all add: q_def)
  have x: "x = fl (fl q * 100)" by (simp add: x_def q_def ci_def ti_def)
  have pr: "progress pb = Finite (fl q)"
    unfolding q_def ci_def ti_def by (rule progress_uint [OF assms(1)])
  have c100: "double_of_int 100 = Finite 100" and c10: "double_of_int 10 = Finite 10"
    using double_of_int_eq [of 100] double_of_int_eq [of 10] by simp_all
  show m100: "d_mul (progress pb) (double_of_int 100) = Finite x"
    by (simp add: pr c100 x)
  have m100': "d_mul (progress pb) (Finite 100) = Finite x"
    by (simp add: pr x)
  have m10: "d_mul (progress pb) (Finite 10) = Finite y"
    by (simp add: pr y_def)
  from scaled_bounds [OF q01, of 100] show x0: "0 \<le> x" and x101: "x < 101"
    by (simp_all add: x)
  from scaled_bounds [OF q01, of 10] have y0: "0 \<le> y" and y11: "y < 11"
    by (simp_all add: y_def)
  define i j where "i = \<lfloor>x\<rfloor>" and "j = \<lfloor>y\<rfloor>"
  have fx: "0 \<le> i" "i \<le> 100"
    unfolding i_def using x0 x101 by (simp_all add: floor_le_iff)
  have fy: "0 \<le> j" "j \<le> 10"
    unfolding j_def using y0 y11 by (simp_all add: floor_le_iff)
  have main: "j = i div 10"
    unfolding i_def j_def x y_def q_def using idx_main [OF u] by simp
  have a: "static_cast_int (Finite x) = Some i"
    using fx x0 by (simp add: c_trunc_nonneg int_in_range_def i_def)
  have "\<bar>j * 10\<bar> < 2 ^ 53" using fy by simp
  then have "fl (of_int (j * 10)) = of_int (j * 10)" by (rule fl_of_int)
  then have "d_mul (d_floor (Finite y)) (Finite 10) = Finite (of_int (j * 10))"
    by (simp add: j_def)
  moreover have "int_in_range (j * 10)" using fy by (simp add: int_in_range_def)
  ultimately have b: "static_cast_int (d_mul (d_floor (Finite y)) (Finite 10)) = Some (j * 10)"
    by (simp only: static_cast_int_of_int)
  have "0 \<le> i - 10 * (i div 10)" "i - 10 * (i div 10) \<le> 9" by presburger+
  then have d: "int_sub i (j * 10) = Some (i - 10 * (i div 10))"
    by (simp add: int_sub_def main int_in_range_def)
  show "last_fill_idx (progress pb) = Some (min (\<lfloor>x\<rfloor> - 10 * (\<lfloor>x\<rfloor> div 10)) 6)"
    unfolding last_fill_idx_def c100 c10 m100' m10 i_def [symmetric]
    by (simp only: a b d bind.bind_lunit)
qed

lemma c_round_of_int: "c_round (of_int n) = n"
proof -
  have "\<lfloor>(of_int n :: rat) + 1 / 2\<rfloor> = n" by (rule floor_unique) simp_all
  moreover have "\<lfloor>- (of_int n :: rat) + 1 / 2\<rfloor> = - n"
    using floor_unique [of "- n" "- (of_int n :: rat) + 1 / 2"] by simp
  ultimately show ?thesis by (simp add: c_round_def)
qed

lemma num_filled_eq:
  assumes "valid pb"
  defines "x \<equiv> fl (fl (of_int (uint (current_step pb)) / of_int (uint (total_steps pb)))
                     * of_int (uint (bar_size pb)))"
  shows "d_mul (progress pb) (double_of_uint (bar_size pb)) = Finite x"
    and "0 \<le> c_round x" and "c_round x \<le> uint (bar_size pb)"
    and "static_cast_int (d_round (Finite x)) = Some (c_round x)"
    and "uint (bar_size pb) < 2 ^ 31"
proof -
  from assms(1) have t: "total_steps pb \<noteq> 0" and c: "current_step pb \<le> total_steps pb"
    and b: "bar_size pb \<le> 2147483647" by (simp_all add: valid_def)
  define ci ti bi where "ci = uint (current_step pb)" and "ti = uint (total_steps pb)"
    and "bi = uint (bar_size pb)"
  note u = uint_ratio [OF t c, folded ci_def ti_def]
  define q :: rat where "q = of_int ci / of_int ti"
  have q01: "0 \<le> q" "q \<le> 1" using u by (simp_all add: q_def)
  have x: "x = fl (fl q * of_int bi)" by (simp add: x_def q_def ci_def ti_def bi_def)
  have pr: "progress pb = Finite (fl q)"
    unfolding q_def ci_def ti_def by (rule progress_uint [OF t])
  have bi0: "0 \<le> bi" by (simp add: bi_def)
  have "bi \<le> 2147483647" using b by (simp add: bi_def word_le_def)
  then have bi31: "bi < 2 ^ 31" by simp
  then show "uint (bar_size pb) < 2 ^ 31" by (simp add: bi_def)
  have du: "double_of_uint (bar_size pb) = Finite (of_int bi)"
    by (simp add: double_of_uint_eq bi_def)
  show "d_mul (progress pb) (double_of_uint (bar_size pb)) = Finite x"
    by (simp add: pr du x)
  have bq: "(0::rat) \<le> of_int bi" using bi0 by simp
  from scaled_bounds [OF q01 bq] have x0: "0 \<le> x" and xb: "x \<le> of_int bi + of_int bi / 2 ^ 51"
    by (simp_all add: x)
  have "(of_int bi :: rat) \<le> of_int (2 ^ 31)" using bi31 by (simp only: of_int_le_iff)
  then have "(of_int bi :: rat) / 2 ^ 51 \<le> 2 ^ 31 / 2 ^ 51" by (intro divide_right_mono) simp_all
  also have "\<dots> < 1 / 2" by simp
  finally have "x + 1 / 2 < of_int bi + 1" using xb by linarith
  then have "x + 1 / 2 < of_int (bi + 1)" by simp
  then have "\<lfloor>x + 1 / 2\<rfloor> < bi + 1" by (simp only: floor_less_iff)
  moreover have "0 \<le> \<lfloor>x + 1 / 2\<rfloor>" using x0 by simp
  ultimately have r: "0 \<le> c_round x" "c_round x \<le> bi" using x0 by (simp_all add: c_round_def)
  then show "0 \<le> c_round x" and "c_round x \<le> uint (bar_size pb)" by (simp_all add: bi_def)
  have "int_in_range (c_round x)" using r bi31 by (simp add: int_in_range_def)
  then show "static_cast_int (d_round (Finite x)) = Some (c_round x)"
    by (simp only: d_round.simps static_cast_int_of_int)
qed

lemma num_filled_full:
  assumes "valid pb" "current_step pb = total_steps pb"
  shows "c_round (fl (fl (of_int (uint (current_step pb)) / of_int (uint (total_steps pb)))
                     * of_int (uint (bar_size pb)))) = uint (bar_size pb)"
    and "last_fill_idx (progress pb) = Some 0"
proof -
  from assms(1) have t: "total_steps pb \<noteq> 0" and c: "current_step pb \<le> total_steps pb"
    by (simp_all add: valid_def)
  define ti bi where "ti = uint (total_steps pb)" and "bi = uint (bar_size pb)"
  have tpos: "0 < ti" unfolding ti_def using uint_ratio(1) [OF t c] .
  have q1: "(of_int ti :: rat) / of_int ti = 1" using tpos by simp
  have f1: "fl 1 = 1" using fl_of_int [of 1] by simp
  have "\<bar>bi\<bar> < 2 ^ 53" using uint_lt2p [of "bar_size pb"] by (simp add: bi_def)
  then have fb: "fl (of_int bi) = of_int bi" by (rule fl_of_int)
  have "c_round (fl (fl (of_int ti / of_int ti) * of_int bi)) = bi"
    by (simp only: q1 f1 mult_1 fb c_round_of_int)
  then show "c_round (fl (fl (of_int (uint (current_step pb)) / of_int (uint (total_steps pb)))
                     * of_int (uint (bar_size pb)))) = uint (bar_size pb)"
    by (simp add: assms(2) ti_def bi_def)
  have f100: "fl 100 = 100" using fl_of_int [of 100] by simp
  have "fl (fl (of_int ti / of_int ti) * 100) = 100"
    by (simp only: q1 f1 mult_1 f100)
  then have "fl (fl (of_int (uint (current_step pb)) / of_int (uint (total_steps pb))) * 100) = 100"
    by (simp add: assms(2) ti_def)
  with last_fill_idx_eq(4) [OF t c] show "last_fill_idx (progress pb) = Some 0"
    by simp
qed

lemma unat_of_nat_le: "n \<le> unat (b :: uint) \<Longrightarrow> unat (of_nat n :: uint) = n"
  by (rule le_unat_uoi)

lemma unat_of_nat_succ:
  assumes "n \<le> unat (b :: uint)" "unat b < 2 ^ 31"
  shows "unat (of_nat n + 1 :: uint) = Suc n"
proof -
  have "unat (of_nat n :: uint) + unat (1 :: uint) < 2 ^ LENGTH(32)"
    using assms by (simp add: unat_of_nat_le [OF assms(1)])
  then have "unat (of_nat n + 1 :: uint) = unat (of_nat n :: uint) + unat (1 :: uint)"
    by (simp only: unat_add_lem)
  then show ?thesis by (simp add: unat_of_nat_le [OF assms(1)])
qed

lemma succ_less_bar:
  assumes "n \<le> unat (b :: uint)" "unat b < 2 ^ 31"
  shows "(of_nat n + 1 < b) = (Suc n < unat b)"
  unfolding word_less_nat_alt unat_of_nat_succ [OF assms] ..

lemma unat_bar_minus:
  assumes "n \<le> unat (b :: uint)" "unat b < 2 ^ 31" "Suc n < unat b"
  shows "unat (b - (of_nat n + 1)) = unat b - Suc n"
proof -
  have "of_nat n + 1 \<le> b" unfolding word_le_nat_alt unat_of_nat_succ [OF assms(1,2)] using assms(3) by simp
  then have "unat (b - (of_nat n + 1)) = unat b - unat (of_nat n + 1 :: uint)" by (rule unat_sub)
  then show ?thesis unfolding unat_of_nat_succ [OF assms(1,2)] .
qed

lemma print_bar_eq:
  assumes "valid pb"
  shows "\<exists>n idx. print_bar pb ss (progress pb)
            = Some (ss @ bar_cells n (get_fill_value idx) (unat (bar_size pb) - Suc n))
          \<and> n \<le> unat (bar_size pb) \<and> last_fill_idx (progress pb) = Some idx
          \<and> (current_step pb = total_steps pb \<longrightarrow> n = unat (bar_size pb) \<and> idx = 0)"
proof -
  from assms(1) have t: "total_steps pb \<noteq> 0" and c: "current_step pb \<le> total_steps pb"
    by (simp_all add: valid_def)
  define x where "x = fl (fl (of_int (uint (current_step pb)) / of_int (uint (total_steps pb)))
                     * of_int (uint (bar_size pb)))"
  note nf = num_filled_eq [OF assms, folded x_def]
  define n where "n = nat (c_round x)"
  obtain idx where idx: "last_fill_idx (progress pb) = Some idx"
    using last_fill_idx_eq(4) [OF t c] by blast
  have nB: "int n \<le> uint (bar_size pb)" using nf(2,3) by (simp add: n_def)
  then have "int n \<le> int (unat (bar_size pb))" by simp
  then have nB': "n \<le> unat (bar_size pb)" by (simp only: of_nat_le_iff)
  have "int (unat (bar_size pb)) < int (2 ^ 31)" using nf(5) by (simp add:)
  then have B31: "unat (bar_size pb) < 2 ^ 31" by (simp only: of_nat_less_iff)
  have w: "(word_of_int (c_round x) :: uint) = of_nat n"
    unfolding n_def using nf(2) by (rule word_of_int_nat)
  note un = unat_of_nat_le [OF nB']
  note lt = succ_less_bar [OF nB' B31]
  have "print_bar pb ss (progress pb)
          = Some (ss @ bar_cells n (get_fill_value idx) (unat (bar_size pb) - Suc n))"
  proof (cases "Suc n < unat (bar_size pb)")
    case True
    note sub = unat_bar_minus [OF nB' B31 True]
    have lt': "of_nat n + 1 < bar_size pb" unfolding lt using True .
    show ?thesis
      unfolding print_bar_def nf(1) nf(4) idx
      by (simp only: bind.bind_lunit Let_def w un lt' sub if_True bar_cells_def append_assoc)
  next
    case False
    then have z: "unat (bar_size pb) - Suc n = 0" by simp
    have lt': "\<not> of_nat n + 1 < bar_size pb" unfolding lt using False .
    show ?thesis
      unfolding print_bar_def nf(1) nf(4) idx
      by (simp only: bind.bind_lunit Let_def w un lt' z if_False bar_cells_def append_assoc
          replicate_0 append_Nil)
  qed
  moreover have "current_step pb = total_steps pb \<longrightarrow> n = unat (bar_size pb) \<and> idx = 0"
  proof
    assume e: "current_step pb = total_steps pb"
    from num_filled_full [OF assms e] idx have "c_round x = uint (bar_size pb)" "idx = 0"
      by (simp_all add: x_def)
    then show "n = unat (bar_size pb) \<and> idx = 0"
      by (simp add: n_def)
  qed
  ultimately show ?thesis using nB' idx by blast
qed

section \<open>The operations in closed form\<close>

lemma peek_eq:
  "peek c w = (elapsed_seconds (start c) (clock w (reads w)), w\<lparr>reads := Suc (reads w)\<rparr>)"
  by (simp add: peek_def steady_clock_now_def)

lemma reset_eq:
  "reset c w = ((elapsed_seconds (start c) (clock w (reads w)), c\<lparr>start := clock w (reads w)\<rparr>),
                w\<lparr>reads := Suc (reads w)\<rparr>)"
  by (simp add: reset_def steady_clock_now_def)

lemma update_display_eq:
  assumes "valid pb"
  shows "\<exists>n idx. update_display pb w
            = Some (w\<lparr>reads := Suc (reads w),
                      streams := (streams w)(os pb := flushed_line
                        (repaint_line pb (elapsed_seconds (start (chronometer pb)) (clock w (reads w)))
                           n (get_fill_value idx))
                        (streams w (os pb)))\<rparr>)
          \<and> n \<le> unat (bar_size pb) \<and> last_fill_idx (progress pb) = Some idx
          \<and> (current_step pb = total_steps pb \<longrightarrow> n = unat (bar_size pb) \<and> idx = 0)"
proof -
  define ss where "ss = [Chr (CHR 0x0D)] @ map Chr (prefix pb) @
     [Chr CHR '' '', Fixed 5 1 (d_mul (progress pb) (double_of_int 100)), Chr CHR ''%'']"
  from print_bar_eq [OF assms, of ss] obtain n idx where
    pb: "print_bar pb ss (progress pb)
            = Some (ss @ bar_cells n (get_fill_value idx) (unat (bar_size pb) - Suc n))"
    and rest: "n \<le> unat (bar_size pb)" "last_fill_idx (progress pb) = Some idx"
      "current_step pb = total_steps pb \<longrightarrow> n = unat (bar_size pb) \<and> idx = 0"
    by blast
  have "update_display pb w
            = Some (w\<lparr>reads := Suc (reads w),
                      streams := (streams w)(os pb := flushed_line
                        (repaint_line pb (elapsed_seconds (start (chronometer pb)) (clock w (reads w)))
                           n (get_fill_value idx))
                        (streams w (os pb)))\<rparr>)"
    unfolding update_display_def peek_eq
    by (simp add: pb [unfolded ss_def, simplified] Let_def os_flush_def os_insert_def os_set_flags_def
        flushed_line_def repaint_line_def)
  with rest show ?thesis by blast
qed

lemma Chronometer_start_update: "(c :: Chronometer)\<lparr>start := x\<rparr> = \<lparr>start = x\<rparr>"
  by (cases c) simp

lemma update_eq:
  "update k f pb w =
     (if d_gt (elapsed_seconds (start (refresh pb)) (clock w (reads w))) (min_time_per_update pb) \<or> f
      then map_option
             (Pair (pb\<lparr>current_step := (if current_step pb + k > total_steps pb
                                        then total_steps pb else current_step pb + k),
                       refresh := \<lparr>start = clock w (Suc (reads w))\<rparr>\<rparr>))
             (update_display
                (pb\<lparr>current_step := (if current_step pb + k > total_steps pb
                                      then total_steps pb else current_step pb + k),
                    refresh := \<lparr>start = clock w (Suc (reads w))\<rparr>\<rparr>)
                (w\<lparr>reads := Suc (Suc (reads w))\<rparr>))
      else Some (pb\<lparr>current_step := (if current_step pb + k > total_steps pb
                                      then total_steps pb else current_step pb + k)\<rparr>,
                 w\<lparr>reads := Suc (reads w)\<rparr>))"
  by (simp add: update_def time_since_refresh_def reset_refresh_timer_def peek_eq reset_eq Let_def
      Chronometer_start_update)

lemma update_display_reads:
  "update_display pb w = Some w' \<Longrightarrow> clock w' = clock w \<and> reads w' = Suc (reads w)"
  by (auto simp: update_display_def peek_eq Let_def os_flush_def os_insert_def os_set_flags_def
      split: bind_splits)

lemma update_fields:
  assumes "update k f pb w = Some (pb', w')"
  shows "pb' = pb\<lparr>current_step := current_step pb', refresh := refresh pb'\<rparr>"
    and "current_step pb' = (if current_step pb + k > total_steps pb
                             then total_steps pb else current_step pb + k)"
  using assms by (auto simp: update_eq split: if_splits)

lemma restart_eq:
  "restart pb w = (pb\<lparr>chronometer := \<lparr>start = clock w (reads w)\<rparr>,
                      refresh := \<lparr>start = clock w (Suc (reads w))\<rparr>\<rparr>,
                   w\<lparr>reads := Suc (Suc (reads w))\<rparr>)"
  by (simp add: restart_def reset_eq Chronometer_start_update)

lemma elapsed_seconds_same: "elapsed_seconds t t = Finite 0"
proof -
  have "fl 1000000000 = 1000000000" using fl_of_int [of 1000000000] by simp
  then show ?thesis by (simp add: elapsed_seconds_def double_of_int_def fl_zero)
qed

lemma not_throttled_example: "d_gt (elapsed_seconds 0 200000000) (Finite (fl (1 / 10)))"
  by code_simp

lemma throttled_example: "\<not> d_gt (elapsed_seconds 1000 3000) (Finite (fl (1 / 10)))"
  by code_simp

section \<open>Lemmas for the claims\<close>

lemma floor_div_10: "\<lfloor>x / 10\<rfloor> = \<lfloor>x\<rfloor> div 10" for x :: rat
proof (rule floor_unique)
  define i where "i = \<lfloor>x\<rfloor>"
  have x: "of_int i \<le> x" "x < of_int i + 1" unfolding i_def by linarith+
  have "10 * (i div 10) \<le> i" "i \<le> 10 * (i div 10) + 9" by presburger+
  then have a: "(10 * of_int (i div 10) :: rat) \<le> of_int i"
    and b: "(of_int i :: rat) \<le> 10 * of_int (i div 10) + 9"
    by (simp_all only: of_int_le_iff [where 'a = rat, symmetric] of_int_mult of_int_add of_int_numeral)
  show "of_int (\<lfloor>x\<rfloor> div 10) \<le> x / 10" using a x(1) unfolding i_def [symmetric] by simp
  show "x / 10 < of_int (\<lfloor>x\<rfloor> div 10) + 1" using b x(2) unfolding i_def [symmetric] by simp
qed

lemma spec_gradation_index_eq:
  assumes "0 \<le> x"
  shows "spec_gradation_index x = min (\<lfloor>x\<rfloor> - 10 * (\<lfloor>x\<rfloor> div 10)) 6"
    and "0 \<le> spec_gradation_index x" and "spec_gradation_index x \<le> 6"
proof -
  show e: "spec_gradation_index x = min (\<lfloor>x\<rfloor> - 10 * (\<lfloor>x\<rfloor> div 10)) 6"
    using assms by (simp add: spec_gradation_index_def c_trunc_nonneg floor_div_10)
  have "0 \<le> \<lfloor>x\<rfloor> - 10 * (\<lfloor>x\<rfloor> div 10)" by presburger
  then show "0 \<le> spec_gradation_index x" unfolding e by simp
  show "spec_gradation_index x \<le> 6" unfolding e by simp
qed

lemma get_fill_value_partial: "0 \<le> i \<Longrightarrow> i \<le> 6 \<Longrightarrow> get_fill_value i \<noteq> U2588"
  by (simp add: get_fill_value_def)

lemma length_bar_cells: "length (bar_cells n g pad) = n + pad + 3"
  by (simp add: bar_cells_def)

lemma valid_example_bar: "cur \<le> 4 \<Longrightarrow> valid (example_bar cur)"
  by (simp add: valid_def example_bar_def)

lemma progress_full: "progress (example_bar 4) = Finite 1"
proof -
  have "fl 1 = 1" using fl_of_int [of 1] by simp
  moreover have "total_steps (example_bar 4) \<noteq> 0" by (simp add: example_bar_def)
  ultimately show ?thesis by (simp add: progress_eq example_bar_def)
qed

lemma progress_complete:
  assumes "total_steps pb \<noteq> 0" "current_step pb = total_steps pb"
  shows "d_mul (progress pb) (double_of_int 100) = Finite 100"
proof -
  have "(of_nat (unat (total_steps pb)) :: rat) \<noteq> 0"
    using assms(1) by (simp add: unsigned_eq_0_iff)
  then have q: "(of_nat (unat (current_step pb)) :: rat) / of_nat (unat (total_steps pb)) = 1"
    by (simp add: assms(2))
  have f1: "fl 1 = 1" using fl_of_int [of 1] by simp
  have f100: "fl 100 = 100" using fl_of_int [of 100] by simp
  have "progress pb = Finite 1"
    unfolding progress_eq [OF assms(1)] q f1 ..
  then show ?thesis by (simp add: double_of_int_def f100)
qed

lemma update_invariant:
  assumes "update k f pb w = Some (pb', w')"
  shows "current_step pb' \<le> total_steps pb'"
  using assms by (auto simp: update_eq split: if_splits)


lemma repaint_via_update:
  assumes "valid (pb\<lparr>current_step := c\<rparr>)"
    and "d_gt (elapsed_seconds (start (refresh pb)) (clock w (reads w))) (min_time_per_update pb) \<or> f"
    and "c = (if current_step pb + k > total_steps pb then total_steps pb else current_step pb + k)"
  shows "\<exists>pb' w' t n g. update k f pb w = Some (pb', w')
           \<and> pb' = pb\<lparr>current_step := c, refresh := \<lparr>start = clock w (Suc (reads w))\<rparr>\<rparr>
           \<and> streams w' = (streams w)(os pb := flushed_line (repaint_line pb' t n g) (streams w (os pb)))
           \<and> reads w' = reads w + 3 \<and> clock w' = clock w
           \<and> (current_step pb' = total_steps pb' \<longrightarrow> n = unat (bar_size pb) \<and> g = U258F)"
proof -
  define pb2 where "pb2 = pb\<lparr>current_step := c, refresh := \<lparr>start = clock w (Suc (reads w))\<rparr>\<rparr>"
  define w2 where "w2 = w\<lparr>reads := Suc (Suc (reads w))\<rparr>"
  have v: "valid pb2" using assms(1) by (simp add: pb2_def valid_def)
  from update_display_eq [OF v, of w2] obtain n idx where
    d: "update_display pb2 w2
          = Some (w2\<lparr>reads := Suc (reads w2),
                      streams := (streams w2)(os pb2 := flushed_line
                        (repaint_line pb2 (elapsed_seconds (start (chronometer pb2)) (clock w2 (reads w2)))
                           n (get_fill_value idx))
                        (streams w2 (os pb2)))\<rparr>)"
    and f: "current_step pb2 = total_steps pb2 \<longrightarrow> n = unat (bar_size pb2) \<and> idx = 0"
    by blast
  have u: "update k f pb w = map_option (Pair pb2) (update_display pb2 w2)"
    using assms(2) unfolding pb2_def w2_def assms(3) by (simp add: update_eq)
  have g: "current_step pb2 = total_steps pb2
             \<longrightarrow> n = unat (bar_size pb) \<and> get_fill_value idx = U258F"
    using f by (auto simp: pb2_def get_fill_value_def)
  show ?thesis
    unfolding u d pb2_def [symmetric]
    using g by (auto simp: w2_def pb2_def)
qed

lemma fill_once:
  assumes "total_steps pb \<noteq> 0" "bar_size pb \<le> 2147483647"
  shows "\<exists>pb' w' t n g. fill pb w = Some (pb', w')
           \<and> pb' = pb\<lparr>current_step := total_steps pb, refresh := \<lparr>start = clock w (Suc (reads w))\<rparr>\<rparr>
           \<and> streams w' = (streams w)(os pb := flushed_line (repaint_line pb' t n g) (streams w (os pb)))
           \<and> n = unat (bar_size pb) \<and> g = U258F
           \<and> d_mul (progress pb') (double_of_int 100) = Finite 100"
proof -
  have v: "valid (pb\<lparr>current_step := total_steps pb\<rparr>)"
    using assms by (simp add: valid_def)
  have c: "total_steps pb
      = (if current_step pb + (total_steps pb - current_step pb) > total_steps pb
         then total_steps pb else current_step pb + (total_steps pb - current_step pb))"
    by simp
  from repaint_via_update [OF v _ c, of w True] obtain pb' w' t n g where
    r: "fill pb w = Some (pb', w')"
      "pb' = pb\<lparr>current_step := total_steps pb, refresh := \<lparr>start = clock w (Suc (reads w))\<rparr>\<rparr>"
      "streams w' = (streams w)(os pb := flushed_line (repaint_line pb' t n g) (streams w (os pb)))"
      "current_step pb' = total_steps pb' \<longrightarrow> n = unat (bar_size pb) \<and> g = U258F"
    unfolding fill_def by blast
  have e: "current_step pb' = total_steps pb'" and t: "total_steps pb' \<noteq> 0"
    using assms(1) by (simp_all add: r(2))
  from progress_complete [OF t e] r e show ?thesis by blast
qed

lemma ProgressBar_new_eq:
  "ProgressBar_new steps w =
     (\<lparr>chronometer = \<lparr>start = clock w (reads w)\<rparr>, refresh = \<lparr>start = clock w (Suc (reads w))\<rparr>,
       min_time_per_update = Finite (fl (1 / 10)), os = cerr, prefix = [], bar_size = 40,
       current_step = 0, total_steps = steps\<rparr>,
      w\<lparr>reads := Suc (Suc (reads w))\<rparr>)"
  by (simp add: ProgressBar_new_def Chronometer_new_def steady_clock_now_def)

lemma update_once:
  assumes "valid pb"
  shows "\<exists>pb' w'. update k force pb w = Some (pb', w') \<and> valid pb'
           \<and> os pb' = os pb \<and> min_time_per_update pb' = min_time_per_update pb
           \<and> clock w' = clock w
           \<and> (if force \<or> d_gt (elapsed_seconds (start (refresh pb)) (clock w (reads w)))
                              (min_time_per_update pb)
               then reads w' = reads w + 3 \<and> start (refresh pb') = clock w (Suc (reads w))
                    \<and> length (os_device (streams w' (os pb)))
                        = Suc (length (os_device (streams w (os pb))))
               else reads w' = Suc (reads w) \<and> refresh pb' = refresh pb \<and> streams w' = streams w)"
proof -
  define c where "c = (if current_step pb + k > total_steps pb then total_steps pb
                       else current_step pb + k)"
  have cle: "c \<le> total_steps pb" by (auto simp: c_def not_less)
  have v: "valid (pb\<lparr>current_step := c\<rparr>)" using assms cle by (simp add: valid_def)
  show ?thesis
  proof (cases "d_gt (elapsed_seconds (start (refresh pb)) (clock w (reads w))) (min_time_per_update pb) \<or> force")
    case True
    from repaint_via_update [OF v True c_def] obtain pb' w' t n g where
      r: "update k force pb w = Some (pb', w')"
        "pb' = pb\<lparr>current_step := c, refresh := \<lparr>start = clock w (Suc (reads w))\<rparr>\<rparr>"
        "streams w' = (streams w)(os pb := flushed_line (repaint_line pb' t n g) (streams w (os pb)))"
        "reads w' = reads w + 3" "clock w' = clock w"
      by blast
    have "valid pb'" using v by (simp add: r(2) valid_def)
    then show ?thesis using True r by (auto simp: flushed_line_def)
  next
    case False
    then have "update k force pb w = Some (pb\<lparr>current_step := c\<rparr>, w\<lparr>reads := Suc (reads w)\<rparr>)"
      by (simp add: update_eq c_def)
    then show ?thesis using False v by auto
  qed
qed

lemma update_current_step:
  assumes "valid pb"
  shows "\<exists>pb' w'. update k f pb w = Some (pb', w') \<and> valid pb'
           \<and> total_steps pb' = total_steps pb
           \<and> current_step pb' = (if current_step pb + k > total_steps pb
                                   then total_steps pb else current_step pb + k)"
proof -
  from update_once [OF assms, of k f w] obtain pb' w' where
    u: "update k f pb w = Some (pb', w')" "valid pb'" by blast
  have "total_steps pb' = total_steps pb"
    using u(1) by (auto simp: update_eq split: if_splits)
  with update_fields(2) [OF u(1)] u show ?thesis by blast
qed

lemma clamp_no_wrap:
  fixes c k t :: uint
  assumes "c \<le> t" "unat c + unat k < 2 ^ 32"
  shows "unat (if c + k > t then t else c + k) = min (unat c + unat k) (unat t)"
proof -
  have s: "unat (c + k) = unat c + unat k"
    using assms(2) by (simp add: unat_add_lem [symmetric])
  show ?thesis by (auto simp: word_less_nat_alt s)
qed

lemma updates_sum:
  assumes "valid pb" "unat (current_step pb) + sum_list (map unat ks) < 2 ^ 32"
  shows "\<exists>pb' w'. updates ks pb w = Some (pb', w') \<and> total_steps pb' = total_steps pb
           \<and> unat (current_step pb')
               = min (unat (current_step pb) + sum_list (map unat ks)) (unat (total_steps pb))"
  using assms
proof (induction ks arbitrary: pb w)
  case Nil
  then show ?case by (simp add: valid_def word_le_nat_alt)
next
  case (Cons k ks)
  from Cons.prems(1) have c: "current_step pb \<le> total_steps pb" by (simp add: valid_def)
  from Cons.prems(2) have k: "unat (current_step pb) + unat k < 2 ^ 32" by simp
  from update_current_step [OF Cons.prems(1), of k False w] obtain pb1 w1 where
    u: "update k False pb w = Some (pb1, w1)" "valid pb1" "total_steps pb1 = total_steps pb"
      "current_step pb1 = (if current_step pb + k > total_steps pb
                           then total_steps pb else current_step pb + k)"
    by blast
  have m: "unat (current_step pb1) = min (unat (current_step pb) + unat k) (unat (total_steps pb))"
    unfolding u(4) using c k by (rule clamp_no_wrap)
  then have "unat (current_step pb1) + sum_list (map unat ks) < 2 ^ 32"
    using Cons.prems(2) by simp
  from Cons.IH [OF u(2) this, of w1] obtain pb' w' where
    r: "updates ks pb1 w1 = Some (pb', w')" "total_steps pb' = total_steps pb1"
      "unat (current_step pb')
         = min (unat (current_step pb1) + sum_list (map unat ks)) (unat (total_steps pb1))"
    by blast
  have "unat (current_step pb')
          = min (unat (current_step pb) + sum_list (map unat (k # ks))) (unat (total_steps pb))"
    unfolding r(3) m u(3) by simp
  with u r show ?case by simp
qed

text \<open>The invariant \<open>current_step \<le> total_steps\<close>: it holds after construction and after
  every \<^verbatim>\<open>update\<close> and \<^verbatim>\<open>fill\<close> that returns, in whatever state they were called, and
  \<^verbatim>\<open>restart\<close> and the setters keep it, as they change neither counter.\<close>

lemma invariant_established:
  "current_step (fst (ProgressBar_new steps w)) \<le> total_steps (fst (ProgressBar_new steps w))"
  by (simp add: ProgressBar_new_eq)

lemma fill_invariant:
  assumes "fill pb w = Some (pb', w')"
  shows "current_step pb' \<le> total_steps pb'"
  using assms unfolding fill_def by (rule update_invariant)

lemma invariant_kept:
  assumes "current_step pb \<le> total_steps pb"
  shows "current_step (fst (restart pb w)) \<le> total_steps (fst (restart pb w))"
    and "current_step (set_ostream a pb) \<le> total_steps (set_ostream a pb)"
    and "current_step (set_prefix s pb) \<le> total_steps (set_prefix s pb)"
    and "current_step (set_bar_size sz pb) \<le> total_steps (set_bar_size sz pb)"
    and "current_step (set_min_update_time t pb) \<le> total_steps (set_min_update_time t pb)"
  using assms
  by (simp_all add: restart_eq set_ostream_def set_prefix_def set_bar_size_def
      set_min_update_time_def)

section \<open>The exact bar and the exact line\<close>

lemma print_bar_exact:
  assumes "valid pb"
  shows "\<exists>x idx. d_mul (progress pb) (double_of_uint (bar_size pb)) = Finite x
           \<and> last_fill_idx (progress pb) = Some idx
           \<and> 0 \<le> c_round x \<and> c_round x \<le> uint (bar_size pb)
           \<and> print_bar pb ss (progress pb)
               = Some (ss @ bar_cells (nat (c_round x)) (get_fill_value idx)
                                (unat (bar_size pb) - Suc (nat (c_round x))))
           \<and> (current_step pb = total_steps pb \<longrightarrow> c_round x = uint (bar_size pb) \<and> idx = 0)"
proof -
  from assms(1) have t: "total_steps pb \<noteq> 0" and c: "current_step pb \<le> total_steps pb"
    by (simp_all add: valid_def)
  define x where "x = fl (fl (of_int (uint (current_step pb)) / of_int (uint (total_steps pb)))
                     * of_int (uint (bar_size pb)))"
  note nf = num_filled_eq [OF assms, folded x_def]
  define n where "n = nat (c_round x)"
  obtain idx where idx: "last_fill_idx (progress pb) = Some idx"
    using last_fill_idx_eq(4) [OF t c] by blast
  have nB: "int n \<le> uint (bar_size pb)" using nf(2,3) by (simp add: n_def)
  then have "int n \<le> int (unat (bar_size pb))" by simp
  then have nB': "n \<le> unat (bar_size pb)" by (simp only: of_nat_le_iff)
  have "int (unat (bar_size pb)) < int (2 ^ 31)" using nf(5) by simp
  then have B31: "unat (bar_size pb) < 2 ^ 31" by (simp only: of_nat_less_iff)
  have w: "(word_of_int (c_round x) :: uint) = of_nat n"
    unfolding n_def using nf(2) by (rule word_of_int_nat)
  note un = unat_of_nat_le [OF nB']
  note lt = succ_less_bar [OF nB' B31]
  have p: "print_bar pb ss (progress pb)
          = Some (ss @ bar_cells n (get_fill_value idx) (unat (bar_size pb) - Suc n))"
  proof (cases "Suc n < unat (bar_size pb)")
    case True
    note sub = unat_bar_minus [OF nB' B31 True]
    have lt': "of_nat n + 1 < bar_size pb" unfolding lt using True .
    show ?thesis
      unfolding print_bar_def nf(1) nf(4) idx
      by (simp only: bind.bind_lunit Let_def w un lt' sub if_True bar_cells_def append_assoc)
  next
    case False
    then have z: "unat (bar_size pb) - Suc n = 0" by simp
    have lt': "\<not> of_nat n + 1 < bar_size pb" unfolding lt using False .
    show ?thesis
      unfolding print_bar_def nf(1) nf(4) idx
      by (simp only: bind.bind_lunit Let_def w un lt' z if_False bar_cells_def append_assoc
          replicate_0 append_Nil)
  qed
  have "current_step pb = total_steps pb \<longrightarrow> c_round x = uint (bar_size pb) \<and> idx = 0"
  proof
    assume e: "current_step pb = total_steps pb"
    from num_filled_full [OF assms e] idx show "c_round x = uint (bar_size pb) \<and> idx = 0"
      by (simp_all add: x_def)
  qed
  with nf(1,2,3) idx p [unfolded n_def] show ?thesis by blast
qed

lemma num_filled_below:
  assumes "valid pb"
    and "uint (current_step pb) * uint (bar_size pb)
           \<le> (uint (bar_size pb) - 1) * uint (total_steps pb)"
    and "d_mul (progress pb) (double_of_uint (bar_size pb)) = Finite x"
  shows "c_round x < uint (bar_size pb)"
proof -
  from assms(1) have t: "total_steps pb \<noteq> 0" and c: "current_step pb \<le> total_steps pb"
    by (simp_all add: valid_def)
  define ci ti bi where "ci = uint (current_step pb)" and "ti = uint (total_steps pb)"
    and "bi = uint (bar_size pb)"
  note u = uint_ratio [OF t c, folded ci_def ti_def]
  define q :: rat where "q = of_int ci / of_int ti"
  have q01: "0 \<le> q" "q \<le> 1" using u by (simp_all add: q_def)
  have "Finite x = Finite (fl (fl q * of_int bi))"
    using num_filled_eq(1) [OF assms(1)] assms(3) by (simp add: q_def ci_def ti_def bi_def)
  then have x: "x = fl (fl q * of_int bi)" by simp
  have bi0: "0 \<le> bi" by (simp add: bi_def)
  have bi31: "bi < 2 ^ 31" using num_filled_eq(5) [OF assms(1)] by (simp add: bi_def)
  have bq: "(0::rat) \<le> of_int bi" using bi0 by simp
  have tpos: "(0::rat) < of_int ti" using u(1) by simp
  have "ci * bi \<le> (bi - 1) * ti" using assms(2) by (simp add: ci_def ti_def bi_def)
  then have "(of_int (ci * bi) :: rat) \<le> of_int ((bi - 1) * ti)" by (simp only: of_int_le_iff)
  then have "(of_int ci * of_int bi :: rat) \<le> (of_int bi - 1) * of_int ti" by simp
  then have "(of_int ci * of_int bi :: rat) / of_int ti \<le> of_int bi - 1"
    using tpos by (simp add: pos_divide_le_eq)
  then have qb: "q * of_int bi \<le> of_int bi - 1" by (simp add: q_def)
  have "(of_int bi :: rat) \<le> of_int (2 ^ 31)" using bi31 by (simp only: of_int_le_iff)
  then have "(of_int bi :: rat) / 2 ^ 51 \<le> 2 ^ 31 / 2 ^ 51" by (intro divide_right_mono) simp_all
  also have "\<dots> < 1 / 2" by simp
  finally have e: "(of_int bi :: rat) / 2 ^ 51 < 1 / 2" .
  from fl_scale_error [OF q01 bq] have "x \<le> q * of_int bi + of_int bi / 2 ^ 51"
    unfolding x by linarith
  with qb e have "x + 1 / 2 < of_int bi" by linarith
  then have f: "\<lfloor>x + 1 / 2\<rfloor> < bi" by (simp only: floor_less_iff)
  have "0 \<le> x" using scaled_bounds(1) [OF q01 bq] by (simp add: x)
  then have "c_round x = \<lfloor>x + 1 / 2\<rfloor>" by (simp add: c_round_def)
  with f show ?thesis by (simp add: bi_def)
qed

lemma update_display_exact:
  assumes "valid pb"
  shows "\<exists>x idx. d_mul (progress pb) (double_of_uint (bar_size pb)) = Finite x
           \<and> last_fill_idx (progress pb) = Some idx
           \<and> update_display pb w
               = Some (w\<lparr>reads := Suc (reads w),
                         streams := (streams w)(os pb := flushed_line
                           (repaint_line pb (elapsed_seconds (start (chronometer pb)) (clock w (reads w)))
                              (nat (c_round x)) (get_fill_value idx))
                           (streams w (os pb)))\<rparr>)"
proof -
  define ss where "ss = [Chr (CHR 0x0D)] @ map Chr (prefix pb) @
     [Chr CHR '' '', Fixed 5 1 (d_mul (progress pb) (double_of_int 100)), Chr CHR ''%'']"
  from print_bar_exact [OF assms, of ss] obtain x idx where
    r: "d_mul (progress pb) (double_of_uint (bar_size pb)) = Finite x"
      "last_fill_idx (progress pb) = Some idx"
    and pb: "print_bar pb ss (progress pb)
            = Some (ss @ bar_cells (nat (c_round x)) (get_fill_value idx)
                             (unat (bar_size pb) - Suc (nat (c_round x))))"
    by blast
  have "update_display pb w
            = Some (w\<lparr>reads := Suc (reads w),
                      streams := (streams w)(os pb := flushed_line
                        (repaint_line pb (elapsed_seconds (start (chronometer pb)) (clock w (reads w)))
                           (nat (c_round x)) (get_fill_value idx))
                        (streams w (os pb)))\<rparr>)"
    unfolding update_display_def peek_eq
    by (simp add: pb [unfolded ss_def, simplified] Let_def os_flush_def os_insert_def os_set_flags_def
        flushed_line_def repaint_line_def)
  with r show ?thesis by blast
qed




lemma example_quarter:
  "d_mul (progress (example_bar 1)) (double_of_uint (bar_size (example_bar 1))) = Finite (5 / 2)"
  "last_fill_idx (progress (example_bar 1)) = Some 5"
  "nat (c_round (5 / 2)) = 3"
  by code_simp+

lemma example_line_size: "str_size (repaint_line (example_bar 1) (Finite 0) 3 U258A) = 40"
  by code_simp

lemma example_repaint_wide:
  "\<exists>w'. update_display (example_bar 1) (setw cerr 60 (example_world (\<lambda>n. 0))\<lparr>reads := r\<rparr>) = Some w'
        \<and> os_width (streams w' cerr) = 0
        \<and> os_flags (streams w' cerr) = 0
        \<and> os_device (streams w' cerr)
             = [replicate 20 (Chr CHR '' '') @ repaint_line (example_bar 1) (Finite 0) 3 U258A]"
proof -
  define w where "w = setw cerr 60 (example_world (\<lambda>n. 0))\<lparr>reads := r\<rparr>"
  have v: "valid (example_bar 1)" by (rule valid_example_bar) simp
  have t: "elapsed_seconds (start (chronometer (example_bar 1))) (clock w (reads w)) = Finite 0"
    by (simp add: w_def example_bar_def example_world_def setw_def elapsed_seconds_same)
  have s: "streams w cerr
             = \<lparr>os_flags = 0, os_width = 60, os_fill = CHR '' '', os_precision = 6,
                os_buffer = [], os_device = []\<rparr>"
    by (simp add: w_def example_world_def setw_def)
  have o: "os (example_bar 1) = cerr" by (simp add: example_bar_def)
  have l: "\<not> adjust_left 0" by (simp add: adjust_left_def)
  from update_display_exact [OF v, of w]
  obtain x idx where
    "d_mul (progress (example_bar 1)) (double_of_uint (bar_size (example_bar 1))) = Finite x"
    "last_fill_idx (progress (example_bar 1)) = Some idx"
    "update_display (example_bar 1) w
       = Some (w\<lparr>reads := Suc (reads w),
                 streams := (streams w)(os (example_bar 1) := flushed_line
                     (repaint_line (example_bar 1)
                        (elapsed_seconds (start (chronometer (example_bar 1))) (clock w (reads w)))
                        (nat (c_round x)) (get_fill_value idx))
                     (streams w (os (example_bar 1))))\<rparr>)"
    by blast
  moreover from this have "x = 5 / 2" "idx = 5" by (simp_all add: example_quarter)
  ultimately have "update_display (example_bar 1) w
       = Some (w\<lparr>reads := Suc (reads w),
                 streams := (streams w)(cerr := flushed_line
                     (repaint_line (example_bar 1) (Finite 0) 3 U258A)
                     \<lparr>os_flags = 0, os_width = 60, os_fill = CHR '' '', os_precision = 6,
                      os_buffer = [], os_device = []\<rparr>)\<rparr>)"
    unfolding o t by (simp only: example_quarter get_fill_value_def) (simp add: s)
  then show ?thesis
    unfolding w_def [symmetric]
    by (simp add: flushed_line_def padded_def example_line_size l)
qed

section \<open>The claims\<close>

subsection \<open>C1\<close>

text \<open>
  Claim C1, as amended. In every state in which a repaint is defined, the bar that
  \<^verbatim>\<open>print_bar\<close> writes is, between the delimiters, \<open>n\<close> full blocks for
  \<open>n = round (progress * bar_size)\<close>, then the one gradation glyph of the index
  \<^verbatim>\<open>last_fill_idx\<close>, then \<open>bar_size - (n + 1)\<close> spaces (none when that is negative); \<open>n\<close>
  is at most the bar size. Whenever \<open>current_step * bar_size\<close> is at most
  \<open>(bar_size - 1) * total_steps\<close>, that is at every progress up to \<open>1 - 1 / bar_size\<close>,
  \<open>n\<close> is below the bar size and the full blocks, the glyph and the spaces are \<open>bar_size\<close>
  cells; these are \<open>bar_size\<close> cells in any state where \<open>n\<close> is below the bar size. At
  \<open>current_step = total_steps\<close> (progress 1) the bar has as many full blocks as the bar
  size, no padding, and the gradation glyph of index 0, \<open>U258F\<close>.
\<close>

theorem bar_layout:
  assumes "valid pb"
  shows "\<exists>x idx. d_mul (progress pb) (double_of_uint (bar_size pb)) = Finite x
           \<and> last_fill_idx (progress pb) = Some idx
           \<and> print_bar pb ss (progress pb)
               = Some (ss @ bar_cells (nat (c_round x)) (get_fill_value idx)
                                (unat (bar_size pb) - Suc (nat (c_round x))))
           \<and> nat (c_round x) \<le> unat (bar_size pb)
           \<and> (nat (c_round x) < unat (bar_size pb)
                \<longrightarrow> nat (c_round x) + 1 + (unat (bar_size pb) - Suc (nat (c_round x)))
                      = unat (bar_size pb))
           \<and> (uint (current_step pb) * uint (bar_size pb)
                  \<le> (uint (bar_size pb) - 1) * uint (total_steps pb)
                \<longrightarrow> nat (c_round x) < unat (bar_size pb)
                    \<and> nat (c_round x) + 1 + (unat (bar_size pb) - Suc (nat (c_round x)))
                        = unat (bar_size pb))
           \<and> (current_step pb = total_steps pb
                \<longrightarrow> nat (c_round x) = unat (bar_size pb)
                    \<and> unat (bar_size pb) - Suc (nat (c_round x)) = 0
                    \<and> get_fill_value idx = U258F)"
proof -
  from print_bar_exact [OF assms, of ss] obtain x idx where
    x: "d_mul (progress pb) (double_of_uint (bar_size pb)) = Finite x"
    and i: "last_fill_idx (progress pb) = Some idx"
    and r: "0 \<le> c_round x" "c_round x \<le> uint (bar_size pb)"
    and p: "print_bar pb ss (progress pb)
              = Some (ss @ bar_cells (nat (c_round x)) (get_fill_value idx)
                               (unat (bar_size pb) - Suc (nat (c_round x))))"
    and f: "current_step pb = total_steps pb \<longrightarrow> c_round x = uint (bar_size pb) \<and> idx = 0"
    by blast
  define n where "n = nat (c_round x)"
  define b where "b = unat (bar_size pb)"
  have nr: "int n = c_round x" using r(1) by (simp add: n_def)
  have bu: "int b = uint (bar_size pb)" by (simp add: b_def)
  have le: "n \<le> b" using r(2) nr bu by linarith
  have sum: "n < b \<longrightarrow> n + 1 + (b - Suc n) = b" by simp
  have below: "uint (current_step pb) * uint (bar_size pb)
                  \<le> (uint (bar_size pb) - 1) * uint (total_steps pb)
                \<longrightarrow> n < b \<and> n + 1 + (b - Suc n) = b"
  proof
    assume "uint (current_step pb) * uint (bar_size pb)
                  \<le> (uint (bar_size pb) - 1) * uint (total_steps pb)"
    from num_filled_below [OF assms this x] have "n < b" using nr bu by linarith
    then show "n < b \<and> n + 1 + (b - Suc n) = b" by simp
  qed
  have full: "current_step pb = total_steps pb
                \<longrightarrow> n = b \<and> b - Suc n = 0 \<and> get_fill_value idx = U258F"
  proof
    assume "current_step pb = total_steps pb"
    with f have "c_round x = uint (bar_size pb)" "idx = 0" by simp_all
    then show "n = b \<and> b - Suc n = 0 \<and> get_fill_value idx = U258F"
      using nr bu by (simp add: get_fill_value_def)
  qed
  from x i p le sum below full show ?thesis unfolding n_def b_def by blast
qed

theorem bar_layout_witness:
  "valid (example_bar 1)
   \<and> uint (current_step (example_bar 1)) * uint (bar_size (example_bar 1))
        \<le> (uint (bar_size (example_bar 1)) - 1) * uint (total_steps (example_bar 1))
   \<and> d_mul (progress (example_bar 1)) (double_of_uint (bar_size (example_bar 1))) = Finite (5 / 2)
   \<and> nat (c_round (5 / 2)) = 3
   \<and> print_bar (example_bar 1) [] (progress (example_bar 1)) = Some (bar_cells 3 U258A 6)
   \<and> 3 + 1 + 6 = unat (bar_size (example_bar 1))
   \<and> valid (example_bar 4)
   \<and> current_step (example_bar 4) = total_steps (example_bar 4)
   \<and> print_bar (example_bar 4) [] (progress (example_bar 4)) = Some (bar_cells 10 U258F 0)"
proof -
  have v: "valid (example_bar 1)" by (rule valid_example_bar) simp
  have h: "uint (current_step (example_bar 1)) * uint (bar_size (example_bar 1))
        \<le> (uint (bar_size (example_bar 1)) - 1) * uint (total_steps (example_bar 1))"
    by (simp add: example_bar_def)
  have b: "unat (bar_size (example_bar cur)) = 10" for cur by (simp add: example_bar_def)
  from bar_layout [OF v, of "[]"] obtain x idx where
    "d_mul (progress (example_bar 1)) (double_of_uint (bar_size (example_bar 1))) = Finite x"
    "last_fill_idx (progress (example_bar 1)) = Some idx"
    "print_bar (example_bar 1) [] (progress (example_bar 1))
       = Some ([] @ bar_cells (nat (c_round x)) (get_fill_value idx)
                        (unat (bar_size (example_bar 1)) - Suc (nat (c_round x))))"
    by blast
  moreover from this have "x = 5 / 2" "idx = 5" by (simp_all add: example_quarter)
  ultimately have q: "print_bar (example_bar 1) [] (progress (example_bar 1)) = Some (bar_cells 3 U258A 6)"
    by (simp only: example_quarter b get_fill_value_def) simp
  have v4: "valid (example_bar 4)" by (rule valid_example_bar) simp
  have e4: "current_step (example_bar 4) = total_steps (example_bar 4)"
    by (simp add: example_bar_def)
  from bar_layout [OF v4, of "[]"] e4 obtain y idy where
    "print_bar (example_bar 4) [] (progress (example_bar 4))
       = Some ([] @ bar_cells (nat (c_round y)) (get_fill_value idy)
                        (unat (bar_size (example_bar 4)) - Suc (nat (c_round y))))"
    "nat (c_round y) = unat (bar_size (example_bar 4))"
    "unat (bar_size (example_bar 4)) - Suc (nat (c_round y)) = 0"
    "get_fill_value idy = U258F"
    by blast
  then have f: "print_bar (example_bar 4) [] (progress (example_bar 4)) = Some (bar_cells 10 U258F 0)"
    by (simp add: b)
  from v h example_quarter b q v4 e4 f show ?thesis by simp
qed

text \<open>
  Claim C1 as stated fails at progress 1: for the specification's example (4 of 4 steps, bar
  size 10) \<^verbatim>\<open>print_bar\<close> writes ten full blocks and then the glyph \<open>U258F\<close>, eleven glyphs
  between the delimiters; it does not write a bar of ten glyphs that ends in a full block.
\<close>

theorem full_bar_counterexample:
  "progress (example_bar 4) = Finite 1
   \<and> print_bar (example_bar 4) [] (progress (example_bar 4)) = Some (bar_cells 10 U258F 0)
   \<and> \<not> (\<exists>n. print_bar (example_bar 4) [] (progress (example_bar 4)) = Some (bar_cells n U2588 0)
            \<and> n + 1 = unat (bar_size (example_bar 4)))"
proof -
  have v: "valid (example_bar 4)" by (rule valid_example_bar) simp
  have e: "current_step (example_bar 4) = total_steps (example_bar 4)"
    by (simp add: example_bar_def)
  have b: "unat (bar_size (example_bar 4)) = 10" by (simp add: example_bar_def)
  from print_bar_eq [OF v, of "[]"] e
  have p: "print_bar (example_bar 4) [] (progress (example_bar 4)) = Some (bar_cells 10 U258F 0)"
    by (auto simp: b get_fill_value_def)
  have "\<not> (\<exists>n. print_bar (example_bar 4) [] (progress (example_bar 4)) = Some (bar_cells n U2588 0)
            \<and> n + 1 = unat (bar_size (example_bar 4)))"
  proof
    assume "\<exists>n. print_bar (example_bar 4) [] (progress (example_bar 4)) = Some (bar_cells n U2588 0)
            \<and> n + 1 = unat (bar_size (example_bar 4))"
    then obtain n where "bar_cells n U2588 0 = bar_cells 10 U258F 0" and n: "n + 1 = 10"
      unfolding p b by auto
    then have "length (bar_cells n U2588 0) = length (bar_cells 10 U258F 0)" by simp
    then show False using n by (simp add: length_bar_cells)
  qed
  with progress_full p show ?thesis by blast
qed

subsection \<open>C2\<close>

text \<open>
  Claim C2 at its failing input. After \<^verbatim>\<open>ProgressBar(4)\<close> and \<^verbatim>\<open>update(3)\<close>, the call
  \<^verbatim>\<open>update(4294967295)\<close> asks for more steps than remain, yet \<open>current_step\<close> becomes 2,
  not the total 4: the sum in the guard wraps around to 2.
\<close>

theorem clamp_wraps_around:
  "\<exists>pb w. (case ProgressBar_new 4 (example_world (\<lambda>n. 0)) of
             (pb0, w0) \<Rightarrow> update 3 False pb0 w0 \<bind> (\<lambda>(pb1, w1). update 4294967295 False pb1 w1))
           = Some (pb, w)
         \<and> total_steps pb = 4 \<and> current_step pb = 2
         \<and> min (3 + 4294967295) (unat (total_steps pb)) = 4"
proof -
  have t: "\<not> d_gt (elapsed_seconds 0 0) (Finite (fl (1 / 10)))" by code_simp
  show ?thesis
    by (simp add: ProgressBar_new_eq example_world_def update_eq t)
qed

subsection \<open>C3\<close>

text \<open>
  Claim C3 at its failing input. After \<^verbatim>\<open>ProgressBar(10)\<close> the calls \<^verbatim>\<open>update(20)\<close> and
  \<^verbatim>\<open>update(4294967291)\<close> leave \<open>current_step\<close> at 5. The requested steps sum to
  \<open>4294967311\<close>, which is 15 modulo \<open>2 ^ 32\<close>; the minimum of either with the total is 10.
\<close>

theorem sum_of_steps_wraps_around:
  "updates [20, 4294967291] (fst (ProgressBar_new 10 (example_world (\<lambda>n. 0))))
       (snd (ProgressBar_new 10 (example_world (\<lambda>n. 0))))
     = Some ((fst (ProgressBar_new 10 (example_world (\<lambda>n. 0))))\<lparr>current_step := 5\<rparr>,
             (snd (ProgressBar_new 10 (example_world (\<lambda>n. 0))))\<lparr>reads := 4\<rparr>)
   \<and> min (20 + 4294967291) (10 :: nat) = 10
   \<and> min ((20 + 4294967291) mod 2 ^ 32) (10 :: nat) = 10"
proof -
  have t: "\<not> d_gt (elapsed_seconds 0 0) (Finite (fl (1 / 10)))" by code_simp
  show ?thesis
    by (simp add: ProgressBar_new_eq example_world_def update_eq t)
qed

subsection \<open>C4\<close>

text \<open>
  Claim C4. For a renderer with a nonzero total and a bar size that is an \<^verbatim>\<open>int\<close>,
  \<^verbatim>\<open>fill()\<close> returns with \<open>current_step = total_steps\<close> and has written and flushed
  one line to the stream, whatever the clock reads and whatever the refresh interval is;
  the percentage of that line is 100 and its bar has \<open>bar_size\<close> full blocks. A second
  \<^verbatim>\<open>fill()\<close> right after does the same again.
\<close>

theorem fill_twice:
  assumes "total_steps pb \<noteq> 0" "bar_size pb \<le> 2147483647"
  shows "\<exists>pb1 w1 t1 g1 pb2 w2 t2 g2.
           fill pb w = Some (pb1, w1) \<and> current_step pb1 = total_steps pb
         \<and> streams w1 (os pb)
             = flushed_line (repaint_line pb1 t1 (unat (bar_size pb)) g1) (streams w (os pb))
         \<and> d_mul (progress pb1) (double_of_int 100) = Finite 100
         \<and> fill pb1 w1 = Some (pb2, w2) \<and> current_step pb2 = total_steps pb
         \<and> streams w2 (os pb)
             = flushed_line (repaint_line pb2 t2 (unat (bar_size pb)) g2) (streams w1 (os pb))
         \<and> d_mul (progress pb2) (double_of_int 100) = Finite 100"
proof -
  from fill_once [OF assms, of w] obtain pb1 w1 t1 g1 where
    a: "fill pb w = Some (pb1, w1)"
      "pb1 = pb\<lparr>current_step := total_steps pb, refresh := \<lparr>start = clock w (Suc (reads w))\<rparr>\<rparr>"
      "streams w1 = (streams w)(os pb := flushed_line (repaint_line pb1 t1 (unat (bar_size pb)) g1)
                                            (streams w (os pb)))"
      "d_mul (progress pb1) (double_of_int 100) = Finite 100"
    by blast
  have h: "total_steps pb1 \<noteq> 0" "bar_size pb1 \<le> 2147483647"
    using assms by (simp_all add: a(2))
  from fill_once [OF h, of w1] obtain pb2 w2 t2 g2 where
    b: "fill pb1 w1 = Some (pb2, w2)"
      "pb2 = pb1\<lparr>current_step := total_steps pb1, refresh := \<lparr>start = clock w1 (Suc (reads w1))\<rparr>\<rparr>"
      "streams w2 = (streams w1)(os pb1 := flushed_line (repaint_line pb2 t2 (unat (bar_size pb1)) g2)
                                            (streams w1 (os pb1)))"
      "d_mul (progress pb2) (double_of_int 100) = Finite 100"
    by blast
  have "current_step pb1 = total_steps pb" "current_step pb2 = total_steps pb"
    "os pb1 = os pb" "bar_size pb1 = bar_size pb"
    by (simp_all add: a(2) b(2))
  with a b show ?thesis by (simp del: fun_upd_apply) force
qed

theorem fill_twice_witness:
  "total_steps (example_bar 2) \<noteq> 0 \<and> bar_size (example_bar 2) \<le> 2147483647
   \<and> (\<exists>pb1 w1 t1 g1 pb2 w2 t2 g2.
           fill (example_bar 2) (example_world (\<lambda>n. 0)) = Some (pb1, w1)
         \<and> current_step pb1 = total_steps (example_bar 2)
         \<and> streams w1 (os (example_bar 2))
             = flushed_line (repaint_line pb1 t1 (unat (bar_size (example_bar 2))) g1)
                 (streams (example_world (\<lambda>n. 0)) (os (example_bar 2)))
         \<and> d_mul (progress pb1) (double_of_int 100) = Finite 100
         \<and> fill pb1 w1 = Some (pb2, w2) \<and> current_step pb2 = total_steps (example_bar 2)
         \<and> streams w2 (os (example_bar 2))
             = flushed_line (repaint_line pb2 t2 (unat (bar_size (example_bar 2))) g2)
                 (streams w1 (os (example_bar 2)))
         \<and> d_mul (progress pb2) (double_of_int 100) = Finite 100)"
proof -
  have h: "total_steps (example_bar 2) \<noteq> 0" "bar_size (example_bar 2) \<le> 2147483647"
    by (simp_all add: example_bar_def)
  from fill_twice [OF h, of "example_world (\<lambda>n. 0)"] h show ?thesis by blast
qed

subsection \<open>C5\<close>

text \<open>
  Claim C5. In every state in which a repaint is defined, the gradation index that
  \<^verbatim>\<open>print_bar\<close> computes from the product \<open>x = progress * 100\<close> is the specification's
  \<open>min (trunc x - (largest multiple of 10 not exceeding x)) 6\<close>; it lies in \<open>0..6\<close>, so
  the glyph placed after the full blocks is never the full block \<open>U2588\<close> of index 7.
\<close>

theorem gradation_index_clamped:
  assumes "valid pb"
  shows "\<exists>x n. d_mul (progress pb) (double_of_int 100) = Finite x
           \<and> last_fill_idx (progress pb) = Some (spec_gradation_index x)
           \<and> print_bar pb ss (progress pb)
               = Some (ss @ bar_cells n (get_fill_value (spec_gradation_index x))
                                (unat (bar_size pb) - Suc n))
           \<and> 0 \<le> spec_gradation_index x \<and> spec_gradation_index x \<le> 6
           \<and> get_fill_value (spec_gradation_index x) \<noteq> U2588"
proof -
  from assms have t: "total_steps pb \<noteq> 0" and c: "current_step pb \<le> total_steps pb"
    by (simp_all add: valid_def)
  define x where "x = fl (fl (of_int (uint (current_step pb)) / of_int (uint (total_steps pb))) * 100)"
  note l = last_fill_idx_eq [OF t c, folded x_def]
  note s = spec_gradation_index_eq [OF l(2)]
  have idx: "last_fill_idx (progress pb) = Some (spec_gradation_index x)"
    using l(4) by (simp only: s(1))
  from print_bar_eq [OF assms, of ss] idx obtain n where
    "print_bar pb ss (progress pb)
       = Some (ss @ bar_cells n (get_fill_value (spec_gradation_index x)) (unat (bar_size pb) - Suc n))"
    by auto
  with l(1) idx s(2,3) get_fill_value_partial [OF s(2,3)] show ?thesis by blast
qed

theorem gradation_index_clamped_witness:
  "valid (example_bar 1)
   \<and> (\<exists>x n. d_mul (progress (example_bar 1)) (double_of_int 100) = Finite x
           \<and> last_fill_idx (progress (example_bar 1)) = Some (spec_gradation_index x)
           \<and> print_bar (example_bar 1) [] (progress (example_bar 1))
               = Some ([] @ bar_cells n (get_fill_value (spec_gradation_index x))
                                (unat (bar_size (example_bar 1)) - Suc n))
           \<and> 0 \<le> spec_gradation_index x \<and> spec_gradation_index x \<le> 6
           \<and> get_fill_value (spec_gradation_index x) \<noteq> U2588)
   \<and> last_fill_idx (progress (example_bar 1)) = Some 5"
proof -
  have v: "valid (example_bar 1)" by (rule valid_example_bar) simp
  have e: "last_fill_idx (progress (example_bar 1)) = Some 5" by code_simp
  from gradation_index_clamped [OF v, of "[]"] v e show ?thesis by blast
qed

subsection \<open>C6\<close>

text \<open>
  Claim C6, as amended. A call of \<^verbatim>\<open>update(1, force)\<close> repaints exactly when \<open>force\<close> is
  true or the refresh stopwatch, started at construction, by \<^verbatim>\<open>restart()\<close> and by every
  repaint, shows more than \<open>min_time_per_update\<close>. So of two calls in a row, in a state
  in which a repaint is defined: with \<open>force\<close> both repaint; without it, if the stopwatch
  exceeds the interval at the first call and the time from that repaint to the second call
  does not, exactly one line is written; and if the stopwatch exceeds the interval at
  neither call, as right after construction, no line is written at all.
\<close>

theorem two_updates_repaints:
  assumes "valid pb"
  shows "\<exists>pb1 w1 pb2 w2.
           update 1 force pb w = Some (pb1, w1) \<and> update 1 force pb1 w1 = Some (pb2, w2)
         \<and> (force \<longrightarrow> length (os_device (streams w2 (os pb)))
                          = length (os_device (streams w (os pb))) + 2)
         \<and> (\<not> force
              \<and> d_gt (elapsed_seconds (start (refresh pb)) (clock w (reads w)))
                      (min_time_per_update pb)
              \<and> \<not> d_gt (elapsed_seconds (clock w (Suc (reads w))) (clock w (reads w + 3)))
                        (min_time_per_update pb)
              \<longrightarrow> length (os_device (streams w2 (os pb)))
                    = length (os_device (streams w (os pb))) + 1)
         \<and> (\<not> force
              \<and> \<not> d_gt (elapsed_seconds (start (refresh pb)) (clock w (reads w)))
                        (min_time_per_update pb)
              \<and> \<not> d_gt (elapsed_seconds (start (refresh pb)) (clock w (Suc (reads w))))
                        (min_time_per_update pb)
              \<longrightarrow> streams w2 = streams w)"
proof -
  from update_once [OF assms, of 1 force w] obtain pb1 w1 where
    a: "update 1 force pb w = Some (pb1, w1)" "valid pb1" "os pb1 = os pb"
      "min_time_per_update pb1 = min_time_per_update pb" "clock w1 = clock w"
      "if force \<or> d_gt (elapsed_seconds (start (refresh pb)) (clock w (reads w)))
                         (min_time_per_update pb)
       then reads w1 = reads w + 3 \<and> start (refresh pb1) = clock w (Suc (reads w))
            \<and> length (os_device (streams w1 (os pb))) = Suc (length (os_device (streams w (os pb))))
       else reads w1 = Suc (reads w) \<and> refresh pb1 = refresh pb \<and> streams w1 = streams w"
    by blast
  from update_once [OF a(2), of 1 force w1] obtain pb2 w2 where
    b: "update 1 force pb1 w1 = Some (pb2, w2)"
      "if force \<or> d_gt (elapsed_seconds (start (refresh pb1)) (clock w1 (reads w1)))
                         (min_time_per_update pb1)
       then length (os_device (streams w2 (os pb1))) = Suc (length (os_device (streams w1 (os pb1))))
       else streams w2 = streams w1"
    by (auto split: if_splits)
  show ?thesis
    using a b by (intro exI [of _ pb1] exI [of _ w1] exI [of _ pb2] exI [of _ w2])
      (auto split: if_splits)
qed

theorem two_updates_repaints_witness:
  "valid (example_bar 0)
   \<and> d_gt (elapsed_seconds (start (refresh (example_bar 0)))
             (clock (example_world (\<lambda>n. 200000000)) (reads (example_world (\<lambda>n. 200000000)))))
          (min_time_per_update (example_bar 0))
   \<and> \<not> d_gt (elapsed_seconds
               (clock (example_world (\<lambda>n. 200000000)) (Suc (reads (example_world (\<lambda>n. 200000000)))))
               (clock (example_world (\<lambda>n. 200000000)) (reads (example_world (\<lambda>n. 200000000)) + 3)))
            (min_time_per_update (example_bar 0))
   \<and> (\<exists>pb1 w1 pb2 w2.
          update 1 False (example_bar 0) (example_world (\<lambda>n. 200000000)) = Some (pb1, w1)
        \<and> update 1 False pb1 w1 = Some (pb2, w2)
        \<and> length (os_device (streams w2 cerr)) = 1)"
proof -
  have v: "valid (example_bar 0)" by (rule valid_example_bar) simp
  have h1: "d_gt (elapsed_seconds (start (refresh (example_bar 0)))
             (clock (example_world (\<lambda>n. 200000000)) (reads (example_world (\<lambda>n. 200000000)))))
          (min_time_per_update (example_bar 0))"
    using not_throttled_example by (simp add: example_bar_def example_world_def)
  have "0 \<le> fl (1 / 10)" by (rule fl_nonneg) simp
  then have h2: "\<not> d_gt (elapsed_seconds
               (clock (example_world (\<lambda>n. 200000000)) (Suc (reads (example_world (\<lambda>n. 200000000)))))
               (clock (example_world (\<lambda>n. 200000000)) (reads (example_world (\<lambda>n. 200000000)) + 3)))
            (min_time_per_update (example_bar 0))"
    by (simp add: example_bar_def example_world_def elapsed_seconds_same not_less)
  from two_updates_repaints [OF v, of False "example_world (\<lambda>n. 200000000)"] h1 h2
  obtain pb1 w1 pb2 w2 where
    "update 1 False (example_bar 0) (example_world (\<lambda>n. 200000000)) = Some (pb1, w1)"
    "update 1 False pb1 w1 = Some (pb2, w2)"
    "length (os_device (streams w2 (os (example_bar 0))))
       = length (os_device (streams (example_world (\<lambda>n. 200000000)) (os (example_bar 0)))) + 1"
    by blast
  then have "\<exists>pb1 w1 pb2 w2.
          update 1 False (example_bar 0) (example_world (\<lambda>n. 200000000)) = Some (pb1, w1)
        \<and> update 1 False pb1 w1 = Some (pb2, w2)
        \<and> length (os_device (streams w2 cerr)) = 1"
    by (auto simp: example_bar_def example_world_def)
  with v h1 h2 show ?thesis by blast
qed

text \<open>
  Claim C6 as stated fails: on a renderer just constructed, two calls \<^verbatim>\<open>update(1)\<close> with
  the clock readings a microsecond apart write no line at all, not one. The refresh
  stopwatch starts at construction, so the first call is throttled like the second.
\<close>

theorem back_to_back_counterexample:
  "\<exists>pb w. (case ProgressBar_new 4 (example_world (\<lambda>n. 1000 * int n)) of
             (pb0, w0) \<Rightarrow> update 1 False pb0 w0 \<bind> (\<lambda>(pb1, w1). update 1 False pb1 w1))
           = Some (pb, w)
         \<and> min_time_per_update pb = Finite (fl (1 / 10))
         \<and> current_step pb = 2
         \<and> os_device (streams w cerr) = []
         \<and> length (os_device (streams w cerr)) \<noteq> 1"
proof -
  have t1: "\<not> d_gt (elapsed_seconds 1000 2000) (Finite (fl (1 / 10)))" by code_simp
  have t2: "\<not> d_gt (elapsed_seconds 1000 3000) (Finite (fl (1 / 10)))" by code_simp
  show ?thesis
    by (simp add: ProgressBar_new_eq example_world_def update_eq t1 t2)
qed

subsection \<open>C7\<close>

text \<open>
  Claim C7. \<^verbatim>\<open>restart()\<close> sets the start of the total-elapsed chronometer and of the
  refresh chronometer to the clock readings it takes, and changes neither \<open>current_step\<close>
  nor \<open>total_steps\<close> nor a configuration field nor a stream. \<^verbatim>\<open>elapsed_time()\<close> called
  next reports the seconds between the reading restart took and its own reading, which is
  zero when the clock has not advanced in between.
\<close>

theorem restart_resets_both_stopwatches:
  "start (chronometer (fst (restart pb w))) = clock w (reads w)
   \<and> start (refresh (fst (restart pb w))) = clock w (Suc (reads w))
   \<and> current_step (fst (restart pb w)) = current_step pb
   \<and> total_steps (fst (restart pb w)) = total_steps pb
   \<and> bar_size (fst (restart pb w)) = bar_size pb
   \<and> prefix (fst (restart pb w)) = prefix pb
   \<and> min_time_per_update (fst (restart pb w)) = min_time_per_update pb
   \<and> os (fst (restart pb w)) = os pb
   \<and> streams (snd (restart pb w)) = streams w
   \<and> fst (elapsed_time (fst (restart pb w)) (snd (restart pb w)))
       = elapsed_seconds (clock w (reads w)) (clock w (Suc (Suc (reads w))))
   \<and> elapsed_seconds (clock w (reads w)) (clock w (reads w)) = Finite 0"
  by (simp add: restart_eq elapsed_time_def peek_eq elapsed_seconds_same)

subsection \<open>C8\<close>

text \<open>
  Claim C8, as amended. In every state in which a repaint is defined, \<^verbatim>\<open>update_display\<close>
  returns with the line, padded to the width the stream had, appended to what the stream had
  buffered, and all of it flushed to the device (the buffer is empty). The formatting flags,
  the fill character and the precision of every stream, the renderer's own included, are
  as they were before the repaint; the width of the renderer's stream is 0 afterwards. No
  other stream is touched.
\<close>

theorem repaint_flushes_keeps_flags_clears_width:
  assumes "valid pb"
  shows "\<exists>x idx w'. d_mul (progress pb) (double_of_uint (bar_size pb)) = Finite x
           \<and> last_fill_idx (progress pb) = Some idx
           \<and> update_display pb w = Some w'
           \<and> (\<forall>a. os_flags (streams w' a) = os_flags (streams w a)
                  \<and> os_fill (streams w' a) = os_fill (streams w a)
                  \<and> os_precision (streams w' a) = os_precision (streams w a))
           \<and> os_width (streams w' (os pb)) = 0
           \<and> os_buffer (streams w' (os pb)) = []
           \<and> os_device (streams w' (os pb))
               = os_device (streams w (os pb))
                 @ [os_buffer (streams w (os pb))
                    @ padded (streams w (os pb))
                        (repaint_line pb
                           (elapsed_seconds (start (chronometer pb)) (clock w (reads w)))
                           (nat (c_round x)) (get_fill_value idx))]
           \<and> (\<forall>a. a \<noteq> os pb \<longrightarrow> streams w' a = streams w a)"
proof -
  from update_display_exact [OF assms, of w] obtain x idx where
    "d_mul (progress pb) (double_of_uint (bar_size pb)) = Finite x"
    "last_fill_idx (progress pb) = Some idx"
    "update_display pb w
       = Some (w\<lparr>reads := Suc (reads w),
                 streams := (streams w)(os pb := flushed_line
                   (repaint_line pb (elapsed_seconds (start (chronometer pb)) (clock w (reads w)))
                      (nat (c_round x)) (get_fill_value idx))
                   (streams w (os pb)))\<rparr>)"
    by blast
  then show ?thesis by (simp add: flushed_line_def)
qed

theorem repaint_flushes_keeps_flags_clears_width_witness:
  "valid (example_bar 1)
   \<and> (\<exists>w'. update_display (example_bar 1) (example_world (\<lambda>n. 0)) = Some w'
         \<and> (\<forall>a. os_flags (streams w' a) = os_flags (streams (example_world (\<lambda>n. 0)) a))
         \<and> os_width (streams w' cerr) = 0
         \<and> os_buffer (streams w' cerr) = []
         \<and> os_device (streams w' cerr) = [repaint_line (example_bar 1) (Finite 0) 3 U258A])"
proof -
  have v: "valid (example_bar 1)" by (rule valid_example_bar) simp
  have t: "elapsed_seconds (start (chronometer (example_bar 1)))
             (clock (example_world (\<lambda>n. 0)) (reads (example_world (\<lambda>n. 0)))) = Finite 0"
    by (simp add: example_bar_def example_world_def elapsed_seconds_same)
  have s: "streams (example_world (\<lambda>n. 0)) cerr
             = \<lparr>os_flags = 0, os_width = 0, os_fill = CHR '' '', os_precision = 6,
                os_buffer = [], os_device = []\<rparr>"
    by (simp add: example_world_def)
  have o: "os (example_bar 1) = cerr" by (simp add: example_bar_def)
  from repaint_flushes_keeps_flags_clears_width [OF v, of "example_world (\<lambda>n. 0)"]
  obtain x idx w' where
    "d_mul (progress (example_bar 1)) (double_of_uint (bar_size (example_bar 1))) = Finite x"
    "last_fill_idx (progress (example_bar 1)) = Some idx"
    "update_display (example_bar 1) (example_world (\<lambda>n. 0)) = Some w'"
    "\<forall>a. os_flags (streams w' a) = os_flags (streams (example_world (\<lambda>n. 0)) a)"
    "os_width (streams w' (os (example_bar 1))) = 0"
    "os_buffer (streams w' (os (example_bar 1))) = []"
    "os_device (streams w' (os (example_bar 1)))
       = os_device (streams (example_world (\<lambda>n. 0)) (os (example_bar 1)))
         @ [os_buffer (streams (example_world (\<lambda>n. 0)) (os (example_bar 1)))
            @ padded (streams (example_world (\<lambda>n. 0)) (os (example_bar 1)))
                (repaint_line (example_bar 1)
                   (elapsed_seconds (start (chronometer (example_bar 1)))
                      (clock (example_world (\<lambda>n. 0)) (reads (example_world (\<lambda>n. 0)))))
                   (nat (c_round x)) (get_fill_value idx))]"
    by blast
  moreover from this have "x = 5 / 2" "idx = 5" by (simp_all add: example_quarter)
  ultimately have "update_display (example_bar 1) (example_world (\<lambda>n. 0)) = Some w'
         \<and> (\<forall>a. os_flags (streams w' a) = os_flags (streams (example_world (\<lambda>n. 0)) a))
         \<and> os_width (streams w' cerr) = 0
         \<and> os_buffer (streams w' cerr) = []
         \<and> os_device (streams w' cerr) = [repaint_line (example_bar 1) (Finite 0) 3 U258A]"
    unfolding o t
    by (simp only: example_quarter get_fill_value_def) (simp add: s padded_def)
  with v show ?thesis by blast
qed

text \<open>
  Claim C8 as stated fails: the repaint does not restore the formatting state of the
  stream. After another writer has set the width of \<^verbatim>\<open>std::cerr\<close> to 60, the repaint of the
  specification's example at 1 of 4 steps, directly or through \<^verbatim>\<open>update(1, true)\<close> on the
  renderer at 0 of 4 steps, writes its 40 characters after 20 fill characters and leaves
  the width at 0; the flags are as before.
\<close>

theorem width_not_restored_counterexample:
  "os_width (streams (setw cerr 60 (example_world (\<lambda>n. 0))) cerr) = 60
   \<and> os_flags (streams (setw cerr 60 (example_world (\<lambda>n. 0))) cerr) = 0
   \<and> (\<exists>w'. update_display (example_bar 1) (setw cerr 60 (example_world (\<lambda>n. 0))) = Some w'
         \<and> os_width (streams w' cerr) = 0
         \<and> os_flags (streams w' cerr) = 0
         \<and> os_device (streams w' cerr)
             = [replicate 20 (Chr CHR '' '') @ repaint_line (example_bar 1) (Finite 0) 3 U258A])
   \<and> (\<exists>pb' w'. update 1 True (example_bar 0) (setw cerr 60 (example_world (\<lambda>n. 0))) = Some (pb', w')
         \<and> os_width (streams w' cerr) = 0
         \<and> os_flags (streams w' cerr) = 0
         \<and> os_device (streams w' cerr)
             = [replicate 20 (Chr CHR '' '') @ repaint_line (example_bar 1) (Finite 0) 3 U258A])"
proof -
  have s: "os_width (streams (setw cerr 60 (example_world (\<lambda>n. 0))) cerr) = 60"
    "os_flags (streams (setw cerr 60 (example_world (\<lambda>n. 0))) cerr) = 0"
    by (simp_all add: example_world_def setw_def)
  have r: "setw cerr 60 (example_world (\<lambda>n. 0))\<lparr>reads := 0\<rparr> = setw cerr 60 (example_world (\<lambda>n. 0))"
    by (simp add: example_world_def setw_def)
  have r2: "reads (setw cerr 60 (example_world (\<lambda>n. 0))) = 0"
    "clock (setw cerr 60 (example_world (\<lambda>n. 0))) n = 0" for n
    by (simp_all add: example_world_def setw_def)
  have p: "(example_bar 0)\<lparr>current_step := 1, refresh := \<lparr>start = 0\<rparr>\<rparr> = example_bar 1"
    by (simp add: example_bar_def)
  have c: "(if current_step (example_bar 0) + 1 > total_steps (example_bar 0)
            then total_steps (example_bar 0) else current_step (example_bar 0) + 1) = 1"
    by (simp add: example_bar_def)
  have direct: "\<exists>w'. update_display (example_bar 1) (setw cerr 60 (example_world (\<lambda>n. 0))) = Some w'
         \<and> os_width (streams w' cerr) = 0
         \<and> os_flags (streams w' cerr) = 0
         \<and> os_device (streams w' cerr)
             = [replicate 20 (Chr CHR '' '') @ repaint_line (example_bar 1) (Finite 0) 3 U258A]"
    using example_repaint_wide [of 0] unfolding r .
  have u: "update 1 True (example_bar 0) (setw cerr 60 (example_world (\<lambda>n. 0)))
     = map_option (Pair (example_bar 1))
         (update_display (example_bar 1)
            (setw cerr 60 (example_world (\<lambda>n. 0))\<lparr>reads := Suc (Suc 0)\<rparr>))"
    unfolding update_eq c r2 p by simp
  have called: "\<exists>pb' w'. update 1 True (example_bar 0) (setw cerr 60 (example_world (\<lambda>n. 0))) = Some (pb', w')
         \<and> os_width (streams w' cerr) = 0
         \<and> os_flags (streams w' cerr) = 0
         \<and> os_device (streams w' cerr)
             = [replicate 20 (Chr CHR '' '') @ repaint_line (example_bar 1) (Finite 0) 3 U258A]"
    using example_repaint_wide [of "Suc (Suc 0)"] unfolding u by auto
  from s direct called show ?thesis by blast
qed

subsection \<open>C9\<close>



subsection \<open>C10\<close>

text \<open>
  Claim C10. A call of \<^verbatim>\<open>update(steps, force)\<close> that returns leaves \<open>total_steps\<close>,
  \<open>bar_size\<close>, \<open>prefix\<close>, \<open>min_time_per_update\<close>, the stream pointer \<open>os\<close> and the
  total-elapsed \<open>chronometer\<close> as they were, for every argument and every state: the
  renderer after the call is the renderer before it with at most \<open>current_step\<close> and the
  \<open>refresh\<close> stopwatch replaced.
\<close>

theorem update_frame:
  assumes "update k f pb w = Some (pb', w')"
  shows "total_steps pb' = total_steps pb \<and> bar_size pb' = bar_size pb
       \<and> prefix pb' = prefix pb \<and> min_time_per_update pb' = min_time_per_update pb
       \<and> os pb' = os pb \<and> chronometer pb' = chronometer pb
       \<and> pb' = pb\<lparr>current_step := current_step pb', refresh := refresh pb'\<rparr>"
proof -
  from update_fields(1) [OF assms]
  obtain c r where "pb' = pb\<lparr>current_step := c, refresh := r\<rparr>" by blast
  then show ?thesis by simp
qed

theorem update_frame_witness:
  "update 1 False (example_bar 0) (example_world (\<lambda>n. 0))
     = Some ((example_bar 0)\<lparr>current_step := 1\<rparr>, (example_world (\<lambda>n. 0))\<lparr>reads := 1\<rparr>)
   \<and> total_steps ((example_bar 0)\<lparr>current_step := 1\<rparr>) = total_steps (example_bar 0)
   \<and> chronometer ((example_bar 0)\<lparr>current_step := 1\<rparr>) = chronometer (example_bar 0)"
proof -
  have "\<not> d_gt (elapsed_seconds 0 0) (Finite (fl (1 / 10)))" by code_simp
  then have u: "update 1 False (example_bar 0) (example_world (\<lambda>n. 0))
     = Some ((example_bar 0)\<lparr>current_step := 1\<rparr>, (example_world (\<lambda>n. 0))\<lparr>reads := 1\<rparr>)"
    by (simp add: update_eq example_bar_def example_world_def)
  from update_frame [OF u] show ?thesis using u by simp
qed

end
